theory Spec2Isabelle
  imports Complex_Main "HOL-Library.Word" "HOL-Library.Char_ord" "HOL-Library.List_Lexorder"
begin

unbundle bit_operations_syntax

section \<open>Common values\<close>

text \<open>
  A failed \<^verbatim>\<open>Q_ASSERT\<close> and a dereference of a pointer that refers to no node are
  results of their own, so that every such branch of the source is a branch of the model.
\<close>

datatype error = AssertionFailed | InvalidPointer

definition bindE :: "error + 'a \<Rightarrow> ('a \<Rightarrow> error + 'b) \<Rightarrow> error + 'b" where
  "bindE r f = (case r of Inl e \<Rightarrow> Inl e | Inr v \<Rightarrow> f v)"

text \<open>
  The \<^verbatim>\<open>float\<close> cost of a solution. Only classification (\<^verbatim>\<open>std::isnan\<close>,
  \<^verbatim>\<open>std::isinf\<close>) and the comparison \<^verbatim>\<open><\<close> are used by the source; both are
  exact in IEEE arithmetic, so a finite value is represented by the real number it denotes.
\<close>

datatype fval = NaN | NegInf | Finite real | PosInf

fun isnan :: "fval \<Rightarrow> bool" where
  "isnan NaN = True"
| "isnan _ = False"

fun isinf :: "fval \<Rightarrow> bool" where
  "isinf NegInf = True"
| "isinf PosInf = True"
| "isinf _ = False"

fun isfinite :: "fval \<Rightarrow> bool" where
  "isfinite (Finite _) = True"
| "isfinite _ = False"

text \<open>The IEEE comparison \<^verbatim>\<open>a < b\<close>: false as soon as one side is NaN.\<close>

fun fless :: "fval \<Rightarrow> fval \<Rightarrow> bool" where
  "fless NaN _ = False"
| "fless _ NaN = False"
| "fless PosInf _ = False"
| "fless _ NegInf = False"
| "fless NegInf _ = True"
| "fless _ PosInf = True"
| "fless (Finite a) (Finite b) = (a < b)"

text \<open>
  \<^verbatim>\<open>std::sort\<close> is a library routine; it is represented by the insertion sort that
  the library runs on short ranges: the elements are taken from left to right, and each
  one is moved towards the front for as long as the comparator puts it before its
  predecessor. The sorted prefix is kept reversed, its last element at the head.
\<close>

fun linear_insert :: "('a \<Rightarrow> 'a \<Rightarrow> bool) \<Rightarrow> 'a \<Rightarrow> 'a list \<Rightarrow> 'a list" where
  "linear_insert cmp v [] = [v]"
| "linear_insert cmp v (p # ps) =
     (if cmp v p then p # linear_insert cmp v ps else v # p # ps)"

definition std_sort :: "('a \<Rightarrow> 'a \<Rightarrow> bool) \<Rightarrow> 'a list \<Rightarrow> 'a list" where
  "std_sort cmp xs = rev (foldl (\<lambda>acc v. linear_insert cmp v acc) [] xs)"

text \<open>\<^verbatim>\<open>QString::compare\<close>: negative, zero or positive, by lexicographic order.\<close>

definition QString_compare :: "string \<Rightarrow> string \<Rightarrow> int" where
  "QString_compare a b = (if a < b then - 1 else if b < a then 1 else 0)"

section \<open>The solution model of one stage (\<^verbatim>\<open>RemoteSolutionModel\<close>)\<close>

text \<open>
  Modelled from the spec: the record \<^verbatim>\<open>Data\<close> and its constructor are declared in
  the header \<^verbatim>\<open>remote_task_model.h\<close>, which is not among the sources. The fields are
  the ones the source reads and writes (\<^verbatim>\<open>id\<close>, \<^verbatim>\<open>cost\<close>, \<^verbatim>\<open>name\<close>,
  \<^verbatim>\<open>creation_rank\<close>, \<^verbatim>\<open>cost_rank\<close>); the constructor call
  \<^verbatim>\<open>Data(id, cost, creation_rank, cost_rank)\<close> takes them in the order the spec
  gives (creation rank = current size + 1, cost rank from the call) and leaves the name
  empty. The field \<^verbatim>\<open>id\<close> is written \<open>id_d\<close>, beside HOL's identity function.
\<close>

record Data =
  id_d :: "32 word"
  cost :: fval
  name :: string
  creation_rank :: "32 word"
  cost_rank :: "32 word"

definition Data_ctor :: "32 word \<Rightarrow> fval \<Rightarrow> 32 word \<Rightarrow> 32 word \<Rightarrow> Data" where
  "Data_ctor i c crea crank =
     \<lparr>id_d = i, cost = c, name = [], creation_rank = crea, cost_rank = crank\<rparr>"

datatype SortOrder = AscendingOrder | DescendingOrder

datatype view_signal = layoutAboutToBeChanged | layoutChanged

text \<open>
  \<^verbatim>\<open>data_\<close> is the \<^verbatim>\<open>std::list\<close> of records; an iterator into it is the position
  of the record (records are never erased, so positions are stable). \<^verbatim>\<open>sorted_\<close> is
  the vector of such iterators. \<^verbatim>\<open>max_cost_\<close>, \<^verbatim>\<open>sort_column_\<close> and
  \<^verbatim>\<open>sort_order_\<close> are members declared in the header; their initial values are
  parameters of \<open>new_RemoteSolutionModel\<close>. A member \<^verbatim>\<open>x_\<close> of the source is the field
  \<open>x_m\<close> here. \<open>emitted\<close> logs the signals of this object.
\<close>

record RemoteSolutionModel =
  data_m :: "Data list"
  sorted_m :: "nat list"
  sort_column_m :: int
  sort_order_m :: SortOrder
  max_cost_m :: fval
  emitted :: "view_signal list"

definition new_RemoteSolutionModel :: "int \<Rightarrow> SortOrder \<Rightarrow> fval \<Rightarrow> RemoteSolutionModel" where
  "new_RemoteSolutionModel col ord mc =
     \<lparr>data_m = [], sorted_m = [], sort_column_m = col, sort_order_m = ord, max_cost_m = mc,
      emitted = []\<rparr>"

definition isVisible :: "RemoteSolutionModel \<Rightarrow> Data \<Rightarrow> bool" where
  "isVisible m item = (isnan (cost item) \<or> fless (cost item) (max_cost_m m))"

text \<open>\<^verbatim>\<open>detail::findById\<close> on \<^verbatim>\<open>data_\<close>: the first position with that id, if any.\<close>

fun findById :: "Data list \<Rightarrow> 32 word \<Rightarrow> nat option" where
  "findById [] i = None"
| "findById (d # ds) i =
     (if id_d d = i then Some 0
      else (case findById ds i of None \<Rightarrow> None | Some k \<Rightarrow> Some (Suc k)))"

text \<open>The comparator of \<^verbatim>\<open>sortInternal\<close>, on two records.\<close>

definition sort_comp :: "int \<Rightarrow> SortOrder \<Rightarrow> Data \<Rightarrow> Data \<Rightarrow> bool" where
  "sort_comp col ord left right =
     (let comp0 =
        (if col = 1 then
           (if cost_rank left < cost_rank right then - 1
            else if cost_rank left > cost_rank right then 1 else 0)
         else if col = 2 then QString_compare (name left) (name right)
         else (0::int));
          comp1 =
        (if comp0 = 0 then (if creation_rank left < creation_rank right then - 1 else 1)
         else comp0)
      in if ord = AscendingOrder then comp1 < 0 else comp1 \<ge> 0)"

text \<open>
  \<^verbatim>\<open>sortInternal\<close>: the view is rebuilt from the visible records and sorted when a
  sort column is active. The remapping of persistent indexes acts on handles held by the
  views, which are no part of this state; the two layout signals that bracket it are
  logged.
\<close>

definition sortInternal :: "RemoteSolutionModel \<Rightarrow> RemoteSolutionModel" where
  "sortInternal m =
     (let vis = filter (\<lambda>k. isVisible m (data_m m ! k)) [0 ..< length (data_m m)];
          srt = (if sort_column_m m \<ge> 0
                 then std_sort (\<lambda>l r. sort_comp (sort_column_m m) (sort_order_m m)
                                         (data_m m ! l) (data_m m ! r)) vis
                 else vis)
      in m\<lparr>sorted_m := srt, emitted := emitted m @ [layoutAboutToBeChanged, layoutChanged]\<rparr>)"

definition sort_RSM :: "int \<Rightarrow> SortOrder \<Rightarrow> RemoteSolutionModel \<Rightarrow> RemoteSolutionModel" where
  "sort_RSM column ord m =
     (if sort_column_m m = column \<and> sort_order_m m = ord then m
      else sortInternal (m\<lparr>sort_column_m := column, sort_order_m := ord\<rparr>))"

text \<open>
  The body of the second loop of \<^verbatim>\<open>processSolutionIDs\<close>, for one pair
  \<^verbatim>\<open>(id, rank)\<close>; the state is the model and \<^verbatim>\<open>size_changed\<close>.
\<close>

definition process_pair ::
  "fval \<Rightarrow> 32 word \<times> 32 word \<Rightarrow> RemoteSolutionModel \<times> bool \<Rightarrow> error + RemoteSolutionModel \<times> bool"
where
  "process_pair default_cost p st =
     (let m = fst st; size_changed = snd st in
      if data_m m = [] \<or> fst p > id_d (last (data_m m)) then
        (let item = Data_ctor (fst p) default_cost (1 + of_nat (length (data_m m))) (snd p)
         in Inr (m\<lparr>data_m := data_m m @ [item]\<rparr>, size_changed \<or> isVisible m item))
      else
        (case findById (data_m m) (fst p) of
           None \<Rightarrow> Inl AssertionFailed
         | Some k \<Rightarrow>
             (let was_visible = isVisible m (data_m m ! k);
                  item = (data_m m ! k)\<lparr>cost_rank := snd p\<rparr>
              in Inr (m\<lparr>data_m := (data_m m)[k := item]\<rparr>,
                      size_changed \<or> (isVisible m item \<noteq> was_visible)))))"

fun process_pairs ::
  "fval \<Rightarrow> (32 word \<times> 32 word) list \<Rightarrow> RemoteSolutionModel \<times> bool \<Rightarrow> error + RemoteSolutionModel \<times> bool"
where
  "process_pairs default_cost [] st = Inr st"
| "process_pairs default_cost (p # ps) st =
     bindE (process_pair default_cost p st) (process_pairs default_cost ps)"

text \<open>The first loop: each id with its 1-based position, a \<^verbatim>\<open>uint32_t\<close> counter.\<close>

fun number_ids :: "32 word \<Rightarrow> 32 word list \<Rightarrow> (32 word \<times> 32 word) list" where
  "number_ids rank [] = []"
| "number_ids rank (i # is) = (i, rank + 1) # number_ids (rank + 1) is"

definition processSolutionIDs ::
  "32 word list \<Rightarrow> fval \<Rightarrow> RemoteSolutionModel \<Rightarrow> error + bool \<times> RemoteSolutionModel"
where
  "processSolutionIDs ids default_cost m =
     (let ids_by_creation = std_sort (\<lambda>left right. fst left < fst right) (number_ids 0 ids)
      in bindE (process_pairs default_cost ids_by_creation (m, False))
           (\<lambda>st. Inr (snd st, sortInternal (fst st))))"

section \<open>The task model (\<^verbatim>\<open>RemoteTaskModel\<close>)\<close>

definition WAS_VISITED :: "32 word" where
  "WAS_VISITED = 0x01"

definition NAME_CHANGED :: "32 word" where
  "NAME_CHANGED = 0x02"

text \<open>
  Modelled from the spec: the four capability constants are declared in the headers of the
  task constructor library, which are not among the sources; the spec lists them as the
  members of one bitset, so they are four distinct bits.
\<close>

definition READS_START :: "32 word" where
  "READS_START = 0x01"

definition READS_END :: "32 word" where
  "READS_END = 0x02"

definition WRITES_NEXT_START :: "32 word" where
  "WRITES_NEXT_START = 0x04"

definition WRITES_PREV_END :: "32 word" where
  "WRITES_PREV_END = 0x08"

text \<open>
  Modelled from the spec: the initial values of the members of a fresh solution model are
  set in the header; the spec has no active sort column at first and a ceiling that is
  unbounded.
\<close>

definition RemoteSolutionModel_ctor :: RemoteSolutionModel where
  "RemoteSolutionModel_ctor = new_RemoteSolutionModel (- 1) AscendingOrder PosInf"

text \<open>
  A \<^verbatim>\<open>Node*\<close> is the position of the node in the list of all allocated nodes
  (nodes are never freed before the model is); \<^verbatim>\<open>nullptr\<close> is \<open>None\<close>.
\<close>

record Node =
  parent_m :: "nat option"
  children_m :: "nat list"
  name_m :: string
  interface_flags_m :: "32 word"
  node_flags_m :: "32 word"
  solutions_m :: RemoteSolutionModel

definition Node_ctor :: "nat option \<Rightarrow> Node" where
  "Node_ctor parent =
     \<lparr>parent_m = parent, children_m = [], name_m = [], interface_flags_m = 0,
      node_flags_m = 0, solutions_m = RemoteSolutionModel_ctor\<rparr>"

definition setName :: "string \<Rightarrow> Node \<Rightarrow> bool \<times> Node" where
  "setName nm n = (if nm = name_m n then (False, n) else (True, n\<lparr>name_m := nm\<rparr>))"

text \<open>
  A \<^verbatim>\<open>QModelIndex\<close>: the invalid index, an index of this model (row, column and
  internal pointer, which is the parent node), or a valid index of some other model.
\<close>

datatype QModelIndex =
  QModelIndex_ctor
  | createIndex int int nat
  | ForeignIndex int int

fun isValid :: "QModelIndex \<Rightarrow> bool" where
  "isValid QModelIndex_ctor = False"
| "isValid _ = True"

fun row :: "QModelIndex \<Rightarrow> int" where
  "row QModelIndex_ctor = - 1"
| "row (createIndex r c p) = r"
| "row (ForeignIndex r c) = r"

fun column :: "QModelIndex \<Rightarrow> int" where
  "column QModelIndex_ctor = - 1"
| "column (createIndex r c p) = c"
| "column (ForeignIndex r c) = c"

datatype model_signal =
  dataChanged QModelIndex QModelIndex
  | beginInsertRows QModelIndex int int
  | endInsertRows

text \<open>
  Modelled from the spec: \<^verbatim>\<open>flags_\<close>, the constant \<^verbatim>\<open>IS_DESTROYED\<close> and
  \<^verbatim>\<open>columnCount()\<close> belong to the base class \<^verbatim>\<open>BaseTaskModel\<close>, which is not
  among the sources. The flags are a set that the "destroyed" marker can be added to; the
  tree has three columns (name, successes, failures).
\<close>

datatype TaskModelFlag = IS_DESTROYED | OtherFlag nat

definition columnCount :: int where
  "columnCount = 3"

record RemoteTaskModel =
  nodes :: "Node list"
  id_to_stage_m :: "32 word \<rightharpoonup> nat"
  flags_m :: "TaskModelFlag set"
  signals :: "model_signal list"

definition root_m :: nat where
  "root_m = 0"

text \<open>The constructor: the root node is the first node, registered under id 0.\<close>

definition RemoteTaskModel_ctor :: RemoteTaskModel where
  "RemoteTaskModel_ctor =
     \<lparr>nodes = [Node_ctor None], id_to_stage_m = [0 \<mapsto> root_m], flags_m = {}, signals = []\<rparr>"

definition emit :: "model_signal \<Rightarrow> RemoteTaskModel \<Rightarrow> RemoteTaskModel" where
  "emit sg m = m\<lparr>signals := signals m @ [sg]\<rparr>"

definition deref :: "RemoteTaskModel \<Rightarrow> nat \<Rightarrow> error + Node" where
  "deref m p = (if p < length (nodes m) then Inr (nodes m ! p) else Inl InvalidPointer)"

text \<open>\<^verbatim>\<open>node(const QModelIndex&)\<close>: the node of an index.\<close>

fun node_index :: "RemoteTaskModel \<Rightarrow> QModelIndex \<Rightarrow> error + nat option" where
  "node_index m QModelIndex_ctor = Inr (Some root_m)"
| "node_index m (ForeignIndex r c) = Inr None"
| "node_index m (createIndex r c parent) =
     bindE (deref m parent) (\<lambda>pn.
       if 0 \<le> r \<and> nat r < length (children_m pn) then Inr (Some (children_m pn ! nat r))
       else Inl AssertionFailed)"

text \<open>\<^verbatim>\<open>node(uint32_t)\<close>: the node of a stage id.\<close>

definition node_id :: "RemoteTaskModel \<Rightarrow> 32 word \<Rightarrow> nat option" where
  "node_id m stage_id = id_to_stage_m m stage_id"

text \<open>The row of a node among the children of its parent: the first position holding it.\<close>

fun find_row :: "nat list \<Rightarrow> nat \<Rightarrow> nat option" where
  "find_row [] n = None"
| "find_row (c # cs) n =
     (if c = n then Some 0
      else (case find_row cs n of None \<Rightarrow> None | Some k \<Rightarrow> Some (Suc k)))"

text \<open>\<^verbatim>\<open>index(const Node*)\<close>: the index of a node.\<close>

definition index_node :: "RemoteTaskModel \<Rightarrow> nat \<Rightarrow> error + QModelIndex" where
  "index_node m n =
     (if n = root_m then Inr QModelIndex_ctor
      else bindE (deref m n) (\<lambda>nd.
        case parent_m nd of
          None \<Rightarrow> Inl InvalidPointer
        | Some parent \<Rightarrow>
            bindE (deref m parent) (\<lambda>pn.
              case find_row (children_m pn) n of
                None \<Rightarrow> Inl AssertionFailed
              | Some r \<Rightarrow> Inr (createIndex (int r) 0 parent))))"

text \<open>
  \<^verbatim>\<open>index(int row, int column, const QModelIndex &parent)\<close>: the index handed to an
  observer; it marks the child as visited.
\<close>

definition index_rc ::
  "int \<Rightarrow> int \<Rightarrow> QModelIndex \<Rightarrow> RemoteTaskModel \<Rightarrow> error + QModelIndex \<times> RemoteTaskModel"
where
  "index_rc r c parent m =
     (if c < 0 \<or> c \<ge> columnCount then Inr (QModelIndex_ctor, m)
      else bindE (node_index m parent) (\<lambda>p.
        case p of
          None \<Rightarrow> Inr (QModelIndex_ctor, m)
        | Some p \<Rightarrow>
            bindE (deref m p) (\<lambda>pn.
              if r < 0 \<or> nat r \<ge> length (children_m pn) then Inr (QModelIndex_ctor, m)
              else
                bindE (deref m (children_m pn ! nat r)) (\<lambda>cn.
                  Inr (createIndex r c p,
                       m\<lparr>nodes := (nodes m)[children_m pn ! nat r :=
                                      cn\<lparr>node_flags_m := node_flags_m cn OR WAS_VISITED\<rparr>]\<rparr>)))))"

text \<open>\<^verbatim>\<open>parent(const QModelIndex &child)\<close>.\<close>

fun parent_index :: "RemoteTaskModel \<Rightarrow> QModelIndex \<Rightarrow> error + QModelIndex" where
  "parent_index m QModelIndex_ctor = Inr QModelIndex_ctor"
| "parent_index m (ForeignIndex r c) = Inr QModelIndex_ctor"
| "parent_index m (createIndex r c p) =
     (if p = root_m then Inr QModelIndex_ctor else index_node m p)"

text \<open>
  \<^verbatim>\<open>QModelIndex::sibling\<close>, a library routine: the invalid index has no sibling,
  the index itself is returned for its own row and column, and any other sibling is
  asked from the model as \<^verbatim>\<open>index(row, column, parent(idx))\<close>.
\<close>

definition sibling ::
  "QModelIndex \<Rightarrow> int \<Rightarrow> int \<Rightarrow> RemoteTaskModel \<Rightarrow> error + QModelIndex \<times> RemoteTaskModel"
where
  "sibling idx r c m =
     (if \<not> isValid idx then Inr (QModelIndex_ctor, m)
      else if r = row idx \<and> c = column idx then Inr (idx, m)
      else bindE (parent_index m idx) (\<lambda>pidx. index_rc r c pidx m))"

datatype ItemDataRole =
  DisplayRole | EditRole | ToolTipRole | ForegroundRole | TextAlignmentRole | UserRole

text \<open>\<^verbatim>\<open>setData\<close>: the rename offered to observers.\<close>

definition setData ::
  "QModelIndex \<Rightarrow> string \<Rightarrow> ItemDataRole \<Rightarrow> RemoteTaskModel \<Rightarrow> error + bool \<times> RemoteTaskModel"
where
  "setData index v role m =
     bindE (node_index m index) (\<lambda>n.
       case n of
         None \<Rightarrow> Inr (False, m)
       | Some n \<Rightarrow>
           if column index \<noteq> 0 \<or> role \<noteq> EditRole then Inr (False, m)
           else
             bindE (deref m n) (\<lambda>nd.
               let nd1 = snd (setName v nd);
                   nd2 = nd1\<lparr>node_flags_m := node_flags_m nd1 OR NAME_CHANGED\<rparr>
               in Inr (True, emit (dataChanged index index) (m\<lparr>nodes := (nodes m)[n := nd2]\<rparr>))))"

text \<open>The \<^verbatim>\<open>Qt::ForegroundRole\<close> case of \<^verbatim>\<open>data\<close>.\<close>

datatype QVariant = QVariant_ctor | QColor_red | palette_text_color | BaseTaskModel_data

definition data_ForegroundRole :: "RemoteTaskModel \<Rightarrow> QModelIndex \<Rightarrow> error + QVariant" where
  "data_ForegroundRole m index =
     bindE (node_index m index) (\<lambda>n.
       case n of
         None \<Rightarrow> Inr QVariant_ctor
       | Some n \<Rightarrow>
           if column index = 0 then
             bindE (parent_index m index) (\<lambda>pidx.
               if \<not> isValid pidx
               then Inr (if IS_DESTROYED \<in> flags_m m then QColor_red else palette_text_color)
               else Inr BaseTaskModel_data)
           else Inr BaseTaskModel_data)"

text \<open>The messages: one stage description, one stage statistics entry.\<close>

record StageDescription =
  id_s :: "32 word"
  parent_id :: "32 word"
  name_s :: string
  flags_s :: "32 word"

record StageStatistics =
  id_t :: "32 word"
  solved :: "32 word list"
  failed :: "32 word list"

text \<open>The loop over the four capability constants, from the empty flag set.\<close>

definition interface_flags_of :: "32 word \<Rightarrow> 32 word" where
  "interface_flags_of fl =
     foldl (\<lambda>acc f. if fl AND f \<noteq> 0 then acc OR f else acc AND NOT f) 0
       [READS_START, READS_END, WRITES_NEXT_START, WRITES_PREV_END]"

text \<open>Creation of the node of a stage that is not registered yet, under \<open>parent\<close>.\<close>

definition create_node ::
  "32 word \<Rightarrow> nat \<Rightarrow> RemoteTaskModel \<Rightarrow> error + nat \<times> RemoteTaskModel"
where
  "create_node stage_id parent m =
     bindE (deref m parent) (\<lambda>pn.
       bindE (index_node m parent) (\<lambda>parentIdx.
         let notify = (node_flags_m pn AND WAS_VISITED \<noteq> 0);
             r = int (length (children_m pn));
             n = length (nodes m);
             m1 = (if notify then emit (beginInsertRows parentIdx r r) m else m);
             m2 = m1\<lparr>nodes := (nodes m1)[parent := pn\<lparr>children_m := children_m pn @ [n]\<rparr>]
                                  @ [Node_ctor (Some parent)]\<rparr>;
             m3 = (if notify then emit endInsertRows m2 else m2)
         in Inr (n, m3\<lparr>id_to_stage_m := (id_to_stage_m m3)(stage_id \<mapsto> n)\<rparr>)))"

text \<open>
  The two notifications for node \<open>n\<close>:
  \<^verbatim>\<open>idx = index(n); dataChanged(idx, idx.sibling(idx.row(), 2))\<close> of the descriptions and
  \<^verbatim>\<open>idx = index(n); dataChanged(idx.sibling(idx.row(), 1), idx.sibling(idx.row(), 2))\<close>
  of the statistics.
\<close>

definition notify_row :: "nat \<Rightarrow> RemoteTaskModel \<Rightarrow> error + RemoteTaskModel" where
  "notify_row n m =
     bindE (index_node m n) (\<lambda>idx.
       bindE (sibling idx (row idx) 2 m) (\<lambda>br.
         Inr (emit (dataChanged idx (fst br)) (snd br))))"

definition notify_counts :: "nat \<Rightarrow> RemoteTaskModel \<Rightarrow> error + RemoteTaskModel" where
  "notify_counts n m =
     bindE (index_node m n) (\<lambda>idx.
       bindE (sibling idx (row idx) 1 m) (\<lambda>tl.
         bindE (sibling idx (row idx) 2 (snd tl)) (\<lambda>br.
           Inr (emit (dataChanged (fst tl) (fst br)) (snd br)))))"

text \<open>The content of a stage is written to its node \<open>n\<close>, and a visited node notifies.\<close>

definition set_content ::
  "StageDescription \<Rightarrow> nat \<Rightarrow> nat \<Rightarrow> RemoteTaskModel \<Rightarrow> error + RemoteTaskModel"
where
  "set_content s parent n m =
     bindE (deref m n) (\<lambda>nd.
       if parent_m nd \<noteq> Some parent then Inl AssertionFailed
       else
         (let r1 = (if node_flags_m nd AND NAME_CHANGED = 0 then setName (name_s s) nd
                    else (False, nd));
              old_flags = interface_flags_m (snd r1);
              nd2 = (snd r1)\<lparr>interface_flags_m := interface_flags_of (flags_s s)\<rparr>;
              changed = (fst r1 \<or> interface_flags_m nd2 \<noteq> old_flags);
              m1 = m\<lparr>nodes := (nodes m)[n := nd2]\<rparr>
          in if changed \<and> node_flags_m nd2 AND WAS_VISITED \<noteq> 0 then notify_row n m1
             else Inr m1))"

text \<open>The body of the loop of \<^verbatim>\<open>processStageDescriptions\<close>, for one description.\<close>

definition describe_stage :: "StageDescription \<Rightarrow> RemoteTaskModel \<Rightarrow> error + RemoteTaskModel" where
  "describe_stage s m =
     (case id_to_stage_m m (parent_id s) of
        None \<Rightarrow> Inr m
      | Some parent \<Rightarrow>
          (case id_to_stage_m m (id_s s) of
             None \<Rightarrow> bindE (create_node (id_s s) parent m) (\<lambda>r. set_content s parent (fst r) (snd r))
           | Some n \<Rightarrow> set_content s parent n m))"

fun describe_stages :: "StageDescription list \<Rightarrow> RemoteTaskModel \<Rightarrow> error + RemoteTaskModel" where
  "describe_stages [] m = Inr m"
| "describe_stages (s # ss) m = bindE (describe_stage s m) (describe_stages ss)"

definition processStageDescriptions ::
  "StageDescription list \<Rightarrow> RemoteTaskModel \<Rightarrow> error + RemoteTaskModel"
where
  "processStageDescriptions msg m =
     bindE (describe_stages msg m) (\<lambda>m1.
       if msg = [] then
         (let m2 = m1\<lparr>flags_m := insert IS_DESTROYED (flags_m m1)\<rparr>
          in bindE (index_rc 0 0 QModelIndex_ctor m2) (\<lambda>tl.
               bindE (index_rc 0 2 QModelIndex_ctor (snd tl)) (\<lambda>br.
                 Inr (emit (dataChanged (fst tl) (fst br)) (snd br)))))
       else Inr m1)"

text \<open>
  The body of the loop of \<^verbatim>\<open>processStageStatistics\<close>, for one entry. The two calls
  of \<^verbatim>\<open>processSolutionIDs\<close> are the operands of \<^verbatim>\<open>||\<close>: the second one is
  evaluated only when the first one returns false.
\<close>

definition update_statistics :: "StageStatistics \<Rightarrow> RemoteTaskModel \<Rightarrow> error + RemoteTaskModel" where
  "update_statistics s m =
     (case id_to_stage_m m (id_t s) of
        None \<Rightarrow> Inr m
      | Some n \<Rightarrow>
          bindE (deref m n) (\<lambda>nd.
            bindE (processSolutionIDs (solved s) NaN (solutions_m nd)) (\<lambda>r1.
              bindE (if fst r1 then Inr r1 else processSolutionIDs (failed s) PosInf (snd r1))
                (\<lambda>r2.
                  let changed = fst r2;
                      m1 = m\<lparr>nodes := (nodes m)[n := nd\<lparr>solutions_m := snd r2\<rparr>]\<rparr>
                  in if changed \<and> node_flags_m nd AND WAS_VISITED \<noteq> 0 then notify_counts n m1
                     else Inr m1))))"

fun processStageStatistics :: "StageStatistics list \<Rightarrow> RemoteTaskModel \<Rightarrow> error + RemoteTaskModel" where
  "processStageStatistics [] m = Inr m"
| "processStageStatistics (s # ss) m = bindE (update_statistics s m) (processStageStatistics ss)"

section \<open>Observations used in the statements\<close>

text \<open>The record stored under an id, and its two ranks.\<close>

definition record_of :: "RemoteSolutionModel \<Rightarrow> 32 word \<Rightarrow> Data option" where
  "record_of m i = (case findById (data_m m) i of None \<Rightarrow> None | Some k \<Rightarrow> Some (data_m m ! k))"

definition ranks_of :: "RemoteSolutionModel \<Rightarrow> 32 word \<Rightarrow> (32 word \<times> 32 word) option" where
  "ranks_of m i = map_option (\<lambda>d. (creation_rank d, cost_rank d)) (record_of m i)"

text \<open>
  The ascending comparator read as an order that admits equality: \<open>a\<close> may stand before
  \<open>b\<close> when \<open>b\<close> is not strictly before \<open>a\<close>.
\<close>

definition asc_le :: "int \<Rightarrow> Data \<Rightarrow> Data \<Rightarrow> bool" where
  "asc_le col a b = (\<not> sort_comp col AscendingOrder b a)"

text \<open>
  A model sorted by name in the given order that has then received the ids 10 and 20 in
  one call; both records have the empty name.
\<close>

definition two_unnamed :: "SortOrder \<Rightarrow> RemoteSolutionModel" where
  "two_unnamed ord =
     (case processSolutionIDs [10, 20] NaN (sort_RSM 2 ord RemoteSolutionModel_ctor) of
        Inl e \<Rightarrow> RemoteSolutionModel_ctor
      | Inr r \<Rightarrow> snd r)"

text \<open>The two node flags, read from a node of the model.\<close>

definition was_visited :: "RemoteTaskModel \<Rightarrow> nat \<Rightarrow> bool" where
  "was_visited m n = (node_flags_m (nodes m ! n) AND WAS_VISITED \<noteq> 0)"

definition name_was_changed :: "RemoteTaskModel \<Rightarrow> nat \<Rightarrow> bool" where
  "name_was_changed m n = (node_flags_m (nodes m ! n) AND NAME_CHANGED \<noteq> 0)"

text \<open>Node \<open>n\<close> exists, shows the name \<open>v\<close> and is marked as manually named.\<close>

definition sticky :: "nat \<Rightarrow> string \<Rightarrow> RemoteTaskModel \<Rightarrow> bool" where
  "sticky n v m = (n < length (nodes m) \<and> name_m (nodes m ! n) = v \<and> name_was_changed m n)"

text \<open>
  What can happen to the model after a rename: description batches, statistics batches
  and observers that ask for an index.
\<close>

datatype operation =
  Descriptions "StageDescription list"
  | Statistics "StageStatistics list"
  | Traverse int int QModelIndex

fun apply_operation :: "operation \<Rightarrow> RemoteTaskModel \<Rightarrow> error + RemoteTaskModel" where
  "apply_operation (Descriptions msg) m = processStageDescriptions msg m"
| "apply_operation (Statistics msg) m = processStageStatistics msg m"
| "apply_operation (Traverse r c parent) m = bindE (index_rc r c parent m) (\<lambda>x. Inr (snd x))"

fun apply_operations :: "operation list \<Rightarrow> RemoteTaskModel \<Rightarrow> error + RemoteTaskModel" where
  "apply_operations [] m = Inr m"
| "apply_operations (x # xs) m = bindE (apply_operation x m) (apply_operations xs)"

text \<open>
  A model with one stage, with id 1, under the root; the same after an observer has asked
  for the index of that stage.
\<close>

definition stage1 :: "string \<Rightarrow> StageDescription" where
  "stage1 nm = \<lparr>id_s = 1, parent_id = 0, name_s = nm, flags_s = 0\<rparr>"

definition one_stage :: RemoteTaskModel where
  "one_stage =
     (case processStageDescriptions [stage1 ''root-stage''] RemoteTaskModel_ctor of
        Inl e \<Rightarrow> RemoteTaskModel_ctor
      | Inr m \<Rightarrow> m)"

definition one_stage_visited :: RemoteTaskModel where
  "one_stage_visited =
     (case index_rc 0 0 QModelIndex_ctor one_stage of
        Inl e \<Rightarrow> one_stage
      | Inr x \<Rightarrow> snd x)"

text \<open>The one-stage model after an observer has renamed the stage to "mine".\<close>

definition renamed_stage :: RemoteTaskModel where
  "renamed_stage =
     (case setData (createIndex 0 0 0) ''mine'' EditRole one_stage_visited of
        Inl e \<Rightarrow> one_stage_visited
      | Inr x \<Rightarrow> snd x)"

definition later_operations :: "operation list" where
  "later_operations =
     [Descriptions [stage1 ''renamed''],
      Statistics [\<lparr>id_t = 1, solved = [1], failed = [2]\<rparr>],
      Traverse 0 1 QModelIndex_ctor,
      Descriptions [],
      Descriptions [stage1 ''again'', \<lparr>id_s = 2, parent_id = 1, name_s = ''child'', flags_s = 3\<rparr>]]"

text \<open>Node \<open>c\<close> with the \<^verbatim>\<open>WAS_VISITED\<close> bit added to its node flags.\<close>

definition mark_visited :: "nat \<Rightarrow> RemoteTaskModel \<Rightarrow> RemoteTaskModel" where
  "mark_visited c m =
     m\<lparr>nodes := (nodes m)[c := (nodes m ! c)\<lparr>node_flags_m :=
                     node_flags_m (nodes m ! c) OR WAS_VISITED\<rparr>]\<rparr>"

text \<open>The model with the "destroyed" marker added to its flags.\<close>

definition destroyed :: "RemoteTaskModel \<Rightarrow> RemoteTaskModel" where
  "destroyed m = m\<lparr>flags_m := insert IS_DESTROYED (flags_m m)\<rparr>"

text \<open>An index moved to another column of its row.\<close>

fun with_column :: "int \<Rightarrow> QModelIndex \<Rightarrow> QModelIndex" where
  "with_column c QModelIndex_ctor = QModelIndex_ctor"
| "with_column c (createIndex r c0 p) = createIndex r c p"
| "with_column c (ForeignIndex r c0) = ForeignIndex r c"

text \<open>
  The content a description asks for: its name, unless the node is manually named, and its
  capability flags.
\<close>

definition new_content :: "StageDescription \<Rightarrow> Node \<Rightarrow> Node" where
  "new_content s nd =
     nd\<lparr>name_m := (if node_flags_m nd AND NAME_CHANGED = 0 then name_s s else name_m nd),
        interface_flags_m := interface_flags_of (flags_s s)\<rparr>"

text \<open>The number of visible records of a solution model.\<close>

definition visible_count :: "RemoteSolutionModel \<Rightarrow> nat" where
  "visible_count sm = length (filter (isVisible sm) (data_m sm))"

text \<open>
  The invariant of the identity registry and the tree: every registered pointer refers to a
  node, no two ids share a node, and a node is allocated after its parent.
\<close>

definition well_formed :: "RemoteTaskModel \<Rightarrow> bool" where
  "well_formed m \<longleftrightarrow>
     (\<forall>i h. id_to_stage_m m i = Some h \<longrightarrow> h < length (nodes m))
     \<and> (\<forall>i j h. id_to_stage_m m i = Some h \<longrightarrow> id_to_stage_m m j = Some h \<longrightarrow> i = j)
     \<and> (\<forall>h p. h < length (nodes m) \<longrightarrow> parent_m (nodes m ! h) = Some p \<longrightarrow> p < h)"

text \<open>
  \<open>m\<close> has grown out of \<open>m0\<close> by descriptions alone: the ids of \<open>m0\<close> keep their nodes,
  every other id refers to a node allocated since, and no node allocated since carries a
  node flag.
\<close>

definition grown_from :: "RemoteTaskModel \<Rightarrow> RemoteTaskModel \<Rightarrow> bool" where
  "grown_from m0 m \<longleftrightarrow>
     length (nodes m0) \<le> length (nodes m)
     \<and> (\<forall>i h. id_to_stage_m m0 i = Some h \<longrightarrow> id_to_stage_m m i = Some h)
     \<and> (\<forall>i h. id_to_stage_m m i = Some h \<longrightarrow> id_to_stage_m m0 i = None \<longrightarrow>
            length (nodes m0) \<le> h)
     \<and> (\<forall>h. length (nodes m0) \<le> h \<longrightarrow> h < length (nodes m) \<longrightarrow>
            node_flags_m (nodes m ! h) = 0)"

text \<open>Node \<open>n\<close> already has the content that the description \<open>s\<close> asks for.\<close>

definition content_is :: "StageDescription \<Rightarrow> RemoteTaskModel \<Rightarrow> nat \<Rightarrow> bool" where
  "content_is s m n \<longleftrightarrow>
     name_m (new_content s (nodes m ! n)) = name_m (nodes m ! n)
     \<and> interface_flags_m (new_content s (nodes m ! n)) = interface_flags_m (nodes m ! n)"

text \<open>
  The description \<open>s\<close> has been applied since \<open>m0\<close>: if its parent was known in \<open>m0\<close>, its
  stage is registered, and when the node is one of \<open>m0\<close> it has the content of \<open>s\<close>.
\<close>

definition applied :: "StageDescription \<Rightarrow> RemoteTaskModel \<Rightarrow> RemoteTaskModel \<Rightarrow> bool" where
  "applied s m0 m \<longleftrightarrow>
     (id_to_stage_m m0 (parent_id s) \<noteq> None \<longrightarrow>
        (\<exists>n. id_to_stage_m m (id_s s) = Some n
              \<and> (n < length (nodes m0) \<longrightarrow> content_is s m n)))"

text \<open>A batch of two descriptions, the second one a child of the first.\<close>

definition two_stages :: "StageDescription list" where
  "two_stages =
     [stage1 ''renamed'', \<lparr>id_s = 2, parent_id = 1, name_s = ''child'', flags_s = 3\<rparr>]"

section \<open>Ranks assigned by \<^verbatim>\<open>processSolutionIDs\<close>\<close>

text \<open>
  C2 (amended). In a fresh solution model, after \<^verbatim>\<open>processSolutionIDs([30,10,20], NaN)\<close>
  and then \<^verbatim>\<open>processSolutionIDs([10,20,30], NaN)\<close>, the records of the ids 10, 20, 30
  have the creation ranks 1, 2, 3 after each of the two calls: within one call the ids are
  taken in ascending order of the id, not in the order of the input list. Their cost ranks
  are 2, 3, 1 after the first call and 1, 2, 3 after the second. Each pair below is
  (creation rank, cost rank).
\<close>

theorem C2_ranks_follow_id_order:
  "bindE (processSolutionIDs [30, 10, 20] NaN (new_RemoteSolutionModel col ord mc)) (\<lambda>r1.
     bindE (processSolutionIDs [10, 20, 30] NaN (snd r1)) (\<lambda>r2.
       Inr (map (ranks_of (snd r1)) [10, 20, 30], map (ranks_of (snd r2)) [10, 20, 30])))
   = Inr ([Some (1, 2), Some (2, 3), Some (3, 1)], [Some (1, 1), Some (2, 2), Some (3, 3)])"
  by (simp add: processSolutionIDs_def new_RemoteSolutionModel_def std_sort_def bindE_def
      process_pair_def Data_ctor_def isVisible_def sortInternal_def ranks_of_def record_of_def
      Let_def)

text \<open>
  C2, as stated, fails: after the first call the creation ranks of the ids 10, 20, 30 are
  1, 2, 3 and not 2, 3, 1.
\<close>

theorem C2_creation_rank_counterexample:
  "bindE (processSolutionIDs [30, 10, 20] NaN RemoteSolutionModel_ctor) (\<lambda>r1.
     Inr (map (\<lambda>i. map_option creation_rank (record_of (snd r1) i)) [10, 20, 30]))
   = Inr [Some 1, Some 2, Some 3]
   \<and> [Some 1, Some 2, Some 3] \<noteq> [Some 2, Some 3, Some (1 :: 32 word)]"
  by code_simp

section \<open>Visibility\<close>

lemma isVisible_nan: "cost item = NaN \<Longrightarrow> isVisible m item"
  by (simp add: isVisible_def)

lemma isVisible_finite:
  "cost item = Finite c \<Longrightarrow> isVisible m item = fless (Finite c) (max_cost_m m)"
  by (simp add: isVisible_def)

text \<open>
  C3. The claim makes a record of infinite cost visible when the ceiling is unbounded.
  The code compares with \<^verbatim>\<open><\<close>: a record whose cost is +Infinity is visible under
  no ceiling at all, not even under the ceiling +Infinity.
\<close>

theorem C3_infinite_cost_never_visible:
  "\<not> isVisible (m\<lparr>max_cost_m := mc\<rparr>) (item\<lparr>cost := PosInf\<rparr>)"
  by (cases mc) (simp_all add: isVisible_def)

section \<open>Ids that do not exceed the last stored id\<close>

text \<open>
  C5. The claim wants every id that is not larger than the last stored id to be handled by
  a lookup. In the code the lookup of a new id fails: with the ids 10 and 30 stored, the
  call for the id 20 runs into the assertion.
\<close>

theorem C5_new_id_below_last_fails:
  "bindE (processSolutionIDs [10, 30] NaN RemoteSolutionModel_ctor)
     (\<lambda>r. processSolutionIDs [20] NaN (snd r)) = Inl AssertionFailed"
  by code_simp

section \<open>The sorted view\<close>

lemma set_linear_insert: "set (linear_insert cmp v ps) = insert v (set ps)"
  by (induction ps) auto

lemma sorted_linear_insert:
  assumes tr: "\<And>a b c. R a b \<Longrightarrow> R b c \<Longrightarrow> R a c"
    and lt: "\<And>a b. cmp a b \<Longrightarrow> R a b"
    and nlt: "\<And>a b. \<not> cmp a b \<Longrightarrow> R b a"
  shows "sorted_wrt (\<lambda>a b. R b a) ps \<Longrightarrow> sorted_wrt (\<lambda>a b. R b a) (linear_insert cmp v ps)"
proof (induction ps)
  case Nil
  then show ?case by simp
next
  case (Cons p ps)
  show ?case
  proof (cases "cmp v p")
    case True
    then have "R v p" by (rule lt)
    with Cons show ?thesis using True by (auto simp: set_linear_insert)
  next
    case False
    then have pv: "R p v" by (rule nlt)
    have "\<forall>q\<in>set ps. R q v"
    proof
      fix q assume "q \<in> set ps"
      with Cons.prems have "R q p" by simp
      then show "R q v" using pv by (rule tr)
    qed
    with Cons.prems pv False show ?thesis by simp
  qed
qed

lemma sorted_foldl_linear_insert:
  assumes tr: "\<And>a b c. R a b \<Longrightarrow> R b c \<Longrightarrow> R a c"
    and lt: "\<And>a b. cmp a b \<Longrightarrow> R a b"
    and nlt: "\<And>a b. \<not> cmp a b \<Longrightarrow> R b a"
  shows "sorted_wrt (\<lambda>a b. R b a) acc \<Longrightarrow>
         sorted_wrt (\<lambda>a b. R b a) (foldl (\<lambda>acc v. linear_insert cmp v acc) acc xs)"
proof (induction xs arbitrary: acc)
  case Nil
  then show ?case by simp
next
  case (Cons x xs)
  have "sorted_wrt (\<lambda>a b. R b a) (linear_insert cmp x acc)"
    using tr lt nlt Cons.prems by (rule sorted_linear_insert [where R = R and cmp = cmp])
  then show ?case using Cons.IH by simp
qed

lemma sorted_std_sort:
  assumes tr: "\<And>a b c. R a b \<Longrightarrow> R b c \<Longrightarrow> R a c"
    and lt: "\<And>a b. cmp a b \<Longrightarrow> R a b"
    and nlt: "\<And>a b. \<not> cmp a b \<Longrightarrow> R b a"
  shows "sorted_wrt R (std_sort cmp xs)"
proof -
  have e: "sorted_wrt (\<lambda>a b. R b a) []" by simp
  have "sorted_wrt (\<lambda>a b. R b a) (foldl (\<lambda>acc v. linear_insert cmp v acc) [] xs)"
    using tr lt nlt e by (rule sorted_foldl_linear_insert [where R = R and cmp = cmp])
  then show ?thesis
    by (simp add: std_sort_def sorted_wrt_rev)
qed

lemma set_foldl_linear_insert:
  "set (foldl (\<lambda>acc v. linear_insert cmp v acc) acc xs) = set acc \<union> set xs"
  by (induction xs arbitrary: acc) (auto simp: set_linear_insert)

lemma set_std_sort: "set (std_sort cmp xs) = set xs"
  by (simp add: std_sort_def set_foldl_linear_insert)

lemma asc_trans: "asc_le col a b \<Longrightarrow> asc_le col b c \<Longrightarrow> asc_le col a c"
  unfolding asc_le_def sort_comp_def QString_compare_def Let_def
  by (auto split: if_splits)

lemma asc_lt: "sort_comp col AscendingOrder a b \<Longrightarrow> asc_le col a b"
  unfolding asc_le_def sort_comp_def QString_compare_def Let_def
  by (auto split: if_splits)

lemma desc_trans: "sort_comp col DescendingOrder a b \<Longrightarrow> sort_comp col DescendingOrder b c \<Longrightarrow> sort_comp col DescendingOrder a c"
  unfolding sort_comp_def QString_compare_def Let_def
  by (auto split: if_splits)

lemma desc_total: "\<not> sort_comp col DescendingOrder a b \<Longrightarrow> sort_comp col DescendingOrder b a"
  unfolding sort_comp_def QString_compare_def Let_def
  by (auto split: if_splits)

lemma asc_tie: "asc_le col a b \<Longrightarrow> col = 1 \<and> cost_rank a = cost_rank b \<or> col = 2 \<and> name a = name b \<Longrightarrow> creation_rank a \<le> creation_rank b"
  unfolding asc_le_def sort_comp_def QString_compare_def Let_def
  by (auto split: if_splits)

lemma desc_tie: "sort_comp col DescendingOrder a b \<Longrightarrow> col = 1 \<and> cost_rank a = cost_rank b \<or> col = 2 \<and> name a = name b \<Longrightarrow> creation_rank b \<le> creation_rank a"
  unfolding sort_comp_def QString_compare_def Let_def
  by (auto split: if_splits)


lemma sortInternal_view:
  "0 \<le> sort_column_m m \<Longrightarrow>
   sorted_m (sortInternal m) =
     std_sort (\<lambda>l r. sort_comp (sort_column_m m) (sort_order_m m) (data_m m ! l) (data_m m ! r))
       (filter (\<lambda>k. isVisible m (data_m m ! k)) [0 ..< length (data_m m)])"
  by (simp add: sortInternal_def Let_def)

lemma view_sorted_ascending:
  "sorted_wrt (\<lambda>l r. asc_le col (ds ! l) (ds ! r))
     (std_sort (\<lambda>l r. sort_comp col AscendingOrder (ds ! l) (ds ! r)) xs)"
proof (rule sorted_std_sort)
  fix a b c
  assume "asc_le col (ds ! a) (ds ! b)" and "asc_le col (ds ! b) (ds ! c)"
  then show "asc_le col (ds ! a) (ds ! c)" by (rule asc_trans)
next
  fix a b
  assume "sort_comp col AscendingOrder (ds ! a) (ds ! b)"
  then show "asc_le col (ds ! a) (ds ! b)" by (rule asc_lt)
next
  fix a b
  assume "\<not> sort_comp col AscendingOrder (ds ! a) (ds ! b)"
  then show "asc_le col (ds ! b) (ds ! a)" by (simp add: asc_le_def)
qed

lemma view_sorted_descending:
  "sorted_wrt (\<lambda>l r. sort_comp col DescendingOrder (ds ! l) (ds ! r))
     (std_sort (\<lambda>l r. sort_comp col DescendingOrder (ds ! l) (ds ! r)) xs)"
proof (rule sorted_std_sort)
  fix a b c
  assume "sort_comp col DescendingOrder (ds ! a) (ds ! b)"
    and "sort_comp col DescendingOrder (ds ! b) (ds ! c)"
  then show "sort_comp col DescendingOrder (ds ! a) (ds ! c)" by (rule desc_trans)
next
  fix a b
  assume "sort_comp col DescendingOrder (ds ! a) (ds ! b)"
  then show "sort_comp col DescendingOrder (ds ! a) (ds ! b)" .
next
  fix a b
  assume "\<not> sort_comp col DescendingOrder (ds ! a) (ds ! b)"
  then show "sort_comp col DescendingOrder (ds ! b) (ds ! a)" by (rule desc_total)
qed

text \<open>
  C4 (amended). In the view produced by \<^verbatim>\<open>sortInternal\<close>, take two positions
  \<open>i < j\<close> whose records \<open>a\<close> (the earlier) and \<open>b\<close> (the later) agree on the active
  sort key: equal cost ranks when sorting by cost (column 1), equal names when sorting by
  name (column 2). Under ascending order the earlier record has the smaller (or the same)
  creation rank; under descending order the tie-break is reversed with the rest of the
  order, and the earlier record has the larger (or the same) creation rank. (The
  descending comparator holds between a record and itself, which \<^verbatim>\<open>std::sort\<close>
  does not expect of a comparator; the statement is about the insertion sort above.)
\<close>

theorem C4_tie_break_follows_sort_order:
  assumes ij: "i < j" "j < length (sorted_m (sortInternal m))"
    and a: "a = data_m m ! (sorted_m (sortInternal m) ! i)"
    and b: "b = data_m m ! (sorted_m (sortInternal m) ! j)"
    and tie: "sort_column_m m = 1 \<and> cost_rank a = cost_rank b
              \<or> sort_column_m m = 2 \<and> name a = name b"
  shows "if sort_order_m m = AscendingOrder then creation_rank a \<le> creation_rank b
         else creation_rank b \<le> creation_rank a"
proof -
  from tie have col: "0 \<le> sort_column_m m" by auto
  note view = sortInternal_view [OF col]
  show ?thesis
  proof (cases "sort_order_m m")
    case AscendingOrder
    have "sorted_wrt (\<lambda>l r. asc_le (sort_column_m m) (data_m m ! l) (data_m m ! r))
            (sorted_m (sortInternal m))"
      unfolding view AscendingOrder by (rule view_sorted_ascending)
    then have "asc_le (sort_column_m m) a b"
      unfolding a b using ij by (rule sorted_wrt_nth_less)
    then have "creation_rank a \<le> creation_rank b" using tie by (rule asc_tie)
    then show ?thesis using AscendingOrder by simp
  next
    case DescendingOrder
    have "sorted_wrt (\<lambda>l r. sort_comp (sort_column_m m) DescendingOrder (data_m m ! l) (data_m m ! r))
            (sorted_m (sortInternal m))"
      unfolding view DescendingOrder by (rule view_sorted_descending)
    then have "sort_comp (sort_column_m m) DescendingOrder a b"
      unfolding a b using ij by (rule sorted_wrt_nth_less)
    then have "creation_rank b \<le> creation_rank a" using tie by (rule desc_tie)
    then show ?thesis using DescendingOrder by simp
  qed
qed

text \<open>
  C4, as stated, fails under descending order: of two visible records with the same name,
  the one with creation rank 2 (position 1 of the data) stands first in the view.
\<close>

theorem C4_descending_counterexample:
  "sorted_m (sortInternal (two_unnamed DescendingOrder)) = [1, 0]
   \<and> map name (data_m (two_unnamed DescendingOrder)) = [[], []]
   \<and> map creation_rank (data_m (two_unnamed DescendingOrder)) = [1, 2]
   \<and> sort_column_m (two_unnamed DescendingOrder) = 2"
  by code_simp

theorem C4_tie_break_witness:
  "creation_rank (data_m (two_unnamed DescendingOrder) ! 0)
     \<le> creation_rank (data_m (two_unnamed DescendingOrder) ! 1)
   \<and> creation_rank (data_m (two_unnamed AscendingOrder) ! 0)
     \<le> creation_rank (data_m (two_unnamed AscendingOrder) ! 1)"
proof -
  let ?d = "two_unnamed DescendingOrder"
  let ?a = "two_unnamed AscendingOrder"
  have d: "sorted_m (sortInternal ?d) = [1, 0]" "sort_column_m ?d = 2"
    "sort_order_m ?d = DescendingOrder" "name (data_m ?d ! 1) = name (data_m ?d ! 0)"
    by code_simp+
  have u: "sorted_m (sortInternal ?a) = [0, 1]" "sort_column_m ?a = 2"
    "sort_order_m ?a = AscendingOrder" "name (data_m ?a ! 0) = name (data_m ?a ! 1)"
    by code_simp+
  have "creation_rank (data_m ?d ! 0) \<le> creation_rank (data_m ?d ! 1)"
    using C4_tie_break_follows_sort_order [of 0 1 ?d "data_m ?d ! 1" "data_m ?d ! 0"] d
    by simp
  moreover have "creation_rank (data_m ?a ! 0) \<le> creation_rank (data_m ?a ! 1)"
    using C4_tie_break_follows_sort_order [of 0 1 ?a "data_m ?a ! 0" "data_m ?a ! 1"] u
    by simp
  ultimately show ?thesis by simp
qed

section \<open>Flags, errors and the rename\<close>

lemma visited_keeps_name_changed: "(f OR WAS_VISITED) AND NAME_CHANGED = f AND NAME_CHANGED"
  unfolding WAS_VISITED_def NAME_CHANGED_def
  by (rule bit_word_eqI) (auto simp: bit_simps bit_numeral_simps dest: bit_imp_le_length)

lemma name_changed_keeps_visited: "(f OR NAME_CHANGED) AND WAS_VISITED = f AND WAS_VISITED"
  unfolding WAS_VISITED_def NAME_CHANGED_def
  by (rule bit_word_eqI) (auto simp: bit_simps bit_numeral_simps dest: bit_imp_le_length)

lemma name_changed_set: "(f OR NAME_CHANGED) AND NAME_CHANGED \<noteq> 0"
proof -
  have "(f OR NAME_CHANGED) AND NAME_CHANGED = NAME_CHANGED"
    by (rule bit_word_eqI) (auto simp: bit_simps)
  then show ?thesis by (simp add: NAME_CHANGED_def)
qed

lemma visited_set: "(f OR WAS_VISITED) AND WAS_VISITED \<noteq> 0"
proof -
  have "(f OR WAS_VISITED) AND WAS_VISITED = WAS_VISITED"
    by (rule bit_word_eqI) (auto simp: bit_simps)
  then show ?thesis by (simp add: WAS_VISITED_def)
qed

lemma visited_absorb:
  assumes "f AND WAS_VISITED \<noteq> 0"
  shows "f OR WAS_VISITED = f"
proof -
  have "odd f"
    using assms by (auto simp: WAS_VISITED_def and_one_eq even_iff_mod_2_eq_zero)
  then show ?thesis
    unfolding WAS_VISITED_def by (intro bit_word_eqI) (auto simp: bit_simps bit_0)
qed

lemma bindE_Inr: "bindE r f = Inr y \<Longrightarrow> \<exists>x. r = Inr x \<and> f x = Inr y"
  by (cases r) (simp_all add: bindE_def)

lemma bindE_simps [simp]: "bindE (Inr x) f = f x" "bindE (Inl e) f = Inl e"
  by (simp_all add: bindE_def)

lemma deref_Inr: "deref m p = Inr nd \<Longrightarrow> p < length (nodes m) \<and> nd = nodes m ! p"
  by (auto simp: deref_def split: if_splits)

lemma index_rc_sticky:
  assumes "index_rc r c p m = Inr x" and "sticky n v m"
  shows "sticky n v (snd x)"
  using assms
  by (auto simp: index_rc_def sticky_def name_was_changed_def nth_list_update
      visited_keeps_name_changed
      dest!: bindE_Inr deref_Inr split: if_splits option.splits)

lemma sibling_sticky:
  assumes "sibling idx r c m = Inr x" and "sticky n v m"
  shows "sticky n v (snd x)"
  using assms
  by (auto simp: sibling_def dest!: bindE_Inr dest: index_rc_sticky split: if_splits)

lemma emit_sticky [simp]: "sticky n v (emit sg m) = sticky n v m"
  by (simp add: emit_def sticky_def name_was_changed_def)

lemma create_node_sticky:
  assumes "create_node i p m = Inr x" and "sticky n v m"
  shows "sticky n v (snd x)"
  using assms
  by (auto simp: create_node_def sticky_def name_was_changed_def nth_list_update nth_append
      emit_def Let_def dest!: bindE_Inr deref_Inr split: if_splits)

lemma notify_row_sticky:
  assumes "notify_row k m = Inr m'" and "sticky n v m"
  shows "sticky n v m'"
  using assms
  by (auto simp: notify_row_def dest!: bindE_Inr dest: sibling_sticky)

lemma notify_counts_sticky:
  assumes "notify_counts k m = Inr m'" and "sticky n v m"
  shows "sticky n v m'"
  using assms
  by (auto simp: notify_counts_def dest!: bindE_Inr dest: sibling_sticky)

lemma set_content_sticky:
  assumes "set_content s p k m = Inr m'" and "sticky n v m"
  shows "sticky n v m'"
proof -
  from assms(1) obtain nd where nd: "deref m k = Inr nd"
    by (auto simp: set_content_def dest!: bindE_Inr)
  then have k: "k < length (nodes m)" "nd = nodes m ! k" by (auto dest: deref_Inr)
  define nd2 where "nd2 = (snd (if node_flags_m nd AND NAME_CHANGED = 0 then setName (name_s s) nd
                    else (False, nd)))\<lparr>interface_flags_m := interface_flags_of (flags_s s)\<rparr>"
  define m1 where "m1 = m\<lparr>nodes := (nodes m)[k := nd2]\<rparr>"
  have m1: "sticky n v m1"
    using assms(2) k
    by (auto simp: m1_def nd2_def sticky_def name_was_changed_def nth_list_update setName_def)
  from assms(1) nd have "m' = m1 \<or> notify_row k m1 = Inr m'"
    by (auto simp: set_content_def Let_def m1_def nd2_def split: if_splits)
  then show ?thesis using m1 notify_row_sticky by blast
qed

lemma describe_stage_sticky:
  assumes "describe_stage s m = Inr m'" and "sticky n v m"
  shows "sticky n v m'"
  using assms
  by (auto simp: describe_stage_def split: option.splits
      dest!: bindE_Inr dest: create_node_sticky set_content_sticky)

lemma describe_stages_sticky:
  "describe_stages ss m = Inr m' \<Longrightarrow> sticky n v m \<Longrightarrow> sticky n v m'"
proof (induction ss arbitrary: m)
  case Nil
  then show ?case by simp
next
  case (Cons s ss)
  from Cons.prems(1) obtain m1 where "describe_stage s m = Inr m1" "describe_stages ss m1 = Inr m'"
    by (auto dest!: bindE_Inr)
  then show ?case using Cons.IH Cons.prems(2) describe_stage_sticky by blast
qed

lemma flags_sticky [simp]: "sticky n v (m\<lparr>flags_m := fl\<rparr>) = sticky n v m"
  by (simp add: sticky_def name_was_changed_def)

lemma processStageDescriptions_sticky:
  assumes "processStageDescriptions msg m = Inr m'" and "sticky n v m"
  shows "sticky n v m'"
proof -
  from assms(1) obtain m1 where m1: "describe_stages msg m = Inr m1"
    by (auto simp: processStageDescriptions_def dest!: bindE_Inr)
  then have s1: "sticky n v m1" using assms(2) by (rule describe_stages_sticky)
  show ?thesis
  proof (cases "msg = []")
    case False
    then show ?thesis using assms(1) m1 s1 by (simp add: processStageDescriptions_def)
  next
    case True
    with assms(1) m1 obtain tl br where
      tl: "index_rc 0 0 QModelIndex_ctor (m1\<lparr>flags_m := insert IS_DESTROYED (flags_m m1)\<rparr>) = Inr tl"
      and br: "index_rc 0 2 QModelIndex_ctor (snd tl) = Inr br"
      and m': "m' = emit (dataChanged (fst tl) (fst br)) (snd br)"
      by (auto simp: processStageDescriptions_def Let_def dest!: bindE_Inr)
    have "sticky n v (snd tl)" using index_rc_sticky [OF tl] s1 by simp
    then have "sticky n v (snd br)" using index_rc_sticky [OF br] by simp
    then show ?thesis using m' by simp
  qed
qed

lemma update_statistics_sticky:
  assumes "update_statistics s m = Inr m'" and "sticky n v m"
  shows "sticky n v m'"
proof (cases "id_to_stage_m m (id_t s)")
  case None
  then show ?thesis using assms by (simp add: update_statistics_def)
next
  case (Some k)
  with assms(1) obtain nd where nd: "deref m k = Inr nd"
    by (auto simp: update_statistics_def dest!: bindE_Inr)
  from assms(1) Some nd obtain r1 where
    r1: "processSolutionIDs (solved s) NaN (solutions_m nd) = Inr r1"
    by (auto simp: update_statistics_def dest!: bindE_Inr)
  from assms(1) Some nd r1 obtain r2 where
    r2: "(if fst r1 then Inr r1 else processSolutionIDs (failed s) PosInf (snd r1)) = Inr r2"
    by (auto simp: update_statistics_def dest!: bindE_Inr)
  define m1 where "m1 = m\<lparr>nodes := (nodes m)[k := nd\<lparr>solutions_m := snd r2\<rparr>]\<rparr>"
  have m1: "sticky n v m1"
    using assms(2) nd
    by (cases "k = n") (auto simp: m1_def sticky_def name_was_changed_def dest!: deref_Inr)
  from assms(1) Some nd r1 r2 have "m' = m1 \<or> notify_counts k m1 = Inr m'"
    by (simp add: update_statistics_def Let_def m1_def split: if_splits)
  then show ?thesis using m1 notify_counts_sticky by blast
qed

lemma processStageStatistics_sticky:
  "processStageStatistics ss m = Inr m' \<Longrightarrow> sticky n v m \<Longrightarrow> sticky n v m'"
proof (induction ss arbitrary: m)
  case Nil
  then show ?case by simp
next
  case (Cons s ss)
  from Cons.prems(1) obtain m1 where
    "update_statistics s m = Inr m1" "processStageStatistics ss m1 = Inr m'"
    by (auto dest!: bindE_Inr)
  then show ?case using Cons.IH Cons.prems(2) update_statistics_sticky by blast
qed

lemma apply_operation_sticky:
  assumes "apply_operation x m = Inr m'" and "sticky n v m"
  shows "sticky n v m'"
proof (cases x)
  case (Descriptions msg)
  then show ?thesis using assms processStageDescriptions_sticky by simp
next
  case (Statistics msg)
  then show ?thesis using assms processStageStatistics_sticky by simp
next
  case (Traverse r c p)
  then show ?thesis using assms by (auto dest!: bindE_Inr dest: index_rc_sticky)
qed

lemma apply_operations_sticky:
  "apply_operations xs m = Inr m' \<Longrightarrow> sticky n v m \<Longrightarrow> sticky n v m'"
proof (induction xs arbitrary: m)
  case Nil
  then show ?case by simp
next
  case (Cons x xs)
  from Cons.prems(1) obtain m1 where
    "apply_operation x m = Inr m1" "apply_operations xs m1 = Inr m'"
    by (auto dest!: bindE_Inr)
  then show ?case using Cons.IH Cons.prems(2) apply_operation_sticky by blast
qed

lemma setData_effect:
  assumes "node_index m index = Inr (Some n)" and "n < length (nodes m)" and "column index = 0"
  shows "setData index v EditRole m =
     Inr (True, emit (dataChanged index index)
        (m\<lparr>nodes := (nodes m)[n := (nodes m ! n)\<lparr>name_m := v,
              node_flags_m := node_flags_m (nodes m ! n) OR NAME_CHANGED\<rparr>]\<rparr>))"
  using assms by (simp add: setData_def deref_def setName_def Let_def)

lemma setData_True:
  assumes "setData index v role m = Inr (True, m1)"
  shows "\<exists>n. node_index m index = Inr (Some n) \<and> n < length (nodes m) \<and> column index = 0 \<and> role = EditRole"
  using assms
  by (auto simp: setData_def dest!: bindE_Inr deref_Inr split: option.splits if_splits)

text \<open>
  C7. Once \<^verbatim>\<open>setData\<close> on column 0 with the edit role has renamed node \<open>n\<close> to
  \<open>v\<close>, the node shows the name \<open>v\<close> after every later sequence of description batches,
  statistics batches and index requests that runs without a failed assertion, whatever
  names the server supplies.
\<close>

theorem C7_manual_rename_is_sticky:
  assumes rename: "setData index v EditRole m = Inr (True, m1)"
    and node: "node_index m index = Inr (Some n)"
    and later: "apply_operations ops m1 = Inr m2"
  shows "n < length (nodes m2) \<and> name_m (nodes m2 ! n) = v"
proof -
  from setData_True [OF rename] node have n: "n < length (nodes m)" and c: "column index = 0"
    by auto
  from rename setData_effect [OF node n c, of v]
  have m1: "m1 = emit (dataChanged index index)
        (m\<lparr>nodes := (nodes m)[n := (nodes m ! n)\<lparr>name_m := v,
              node_flags_m := node_flags_m (nodes m ! n) OR NAME_CHANGED\<rparr>]\<rparr>)"
    by simp
  have "sticky n v m1"
    unfolding m1 sticky_def name_was_changed_def emit_def
    using n name_changed_set [of "node_flags_m (nodes m ! n)"] by simp
  then have "sticky n v m2" using later apply_operations_sticky by blast
  then show ?thesis by (simp add: sticky_def)
qed


text \<open>
  C7 at a concrete input: the stage renamed to "mine" keeps that name through batches that
  supply "renamed" and "again", a statistics batch, an index request and an empty batch.
\<close>

theorem C7_manual_rename_witness:
  "(case apply_operations later_operations renamed_stage of
      Inl e \<Rightarrow> False
    | Inr m2 \<Rightarrow> name_m (nodes m2 ! 1) = ''mine'')
   \<and> name_m (nodes one_stage_visited ! 1) = ''root-stage''"
proof -
  have node: "node_index one_stage_visited (createIndex 0 0 0) = Inr (Some 1)"
    by code_simp
  have len: "1 < length (nodes one_stage_visited)"
    by code_simp
  have rename: "setData (createIndex 0 0 0) ''mine'' EditRole one_stage_visited
                  = Inr (True, renamed_stage)"
    unfolding renamed_stage_def using setData_effect [OF node len, of "''mine''"] by simp
  have "case apply_operations later_operations renamed_stage of Inl e \<Rightarrow> False | Inr m2 \<Rightarrow> True"
    by code_simp
  then obtain m2 where later: "apply_operations later_operations renamed_stage = Inr m2"
    by (auto split: sum.splits)
  have "name_m (nodes m2 ! 1) = ''mine''"
    using C7_manual_rename_is_sticky [OF rename node later] by simp
  moreover have "name_m (nodes one_stage_visited ! 1) = ''root-stage''"
    by code_simp
  ultimately show ?thesis using later by simp
qed

text \<open>
  C10. A rename to the name the node already has returns true, stores nothing but the
  \<^verbatim>\<open>NAME_CHANGED\<close> bit in the node flags (which is then set), and emits one
  \<^verbatim>\<open>dataChanged(index, index)\<close>.
\<close>

theorem C10_rename_to_same_name:
  assumes "node_index m index = Inr (Some n)" and "n < length (nodes m)"
    and "column index = 0" and "v = name_m (nodes m ! n)"
  shows "setData index v EditRole m =
           Inr (True, emit (dataChanged index index)
             (m\<lparr>nodes := (nodes m)[n := (nodes m ! n)\<lparr>node_flags_m :=
                   node_flags_m (nodes m ! n) OR NAME_CHANGED\<rparr>]\<rparr>))
         \<and> (node_flags_m (nodes m ! n) OR NAME_CHANGED) AND NAME_CHANGED \<noteq> 0"
  using assms setData_effect [of m index n v] by (simp add: NAME_CHANGED_def)

text \<open>C10 at a concrete input: the visited stage is renamed to its own name.\<close>

theorem C10_rename_to_same_name_witness:
  "(case setData (createIndex 0 0 0) ''root-stage'' EditRole one_stage_visited of
      Inl e \<Rightarrow> False
    | Inr x \<Rightarrow> fst x \<and> signals (snd x) = [dataChanged (createIndex 0 0 0) (createIndex 0 0 0)]
        \<and> name_was_changed (snd x) 1 \<and> name_m (nodes (snd x) ! 1) = ''root-stage'')
   \<and> \<not> name_was_changed one_stage_visited 1"
proof -
  have node: "node_index one_stage_visited (createIndex 0 0 0) = Inr (Some 1)"
    by code_simp
  have len: "1 < length (nodes one_stage_visited)"
    by code_simp
  have nm: "''root-stage'' = name_m (nodes one_stage_visited ! 1)"
    by code_simp
  have sg: "signals one_stage_visited = []"
    by code_simp
  have before: "\<not> name_was_changed one_stage_visited 1"
    by code_simp
  show ?thesis
    using C10_rename_to_same_name [OF node len _ nm] len sg before nm [symmetric]
    by (simp add: emit_def name_was_changed_def)
qed

section \<open>Statistics: the two id lists\<close>

text \<open>
  C1. The claim has both id lists of an entry fed into the solution model of the node. In
  the code the two calls are joined by \<^verbatim>\<open>||\<close>: for the entry with the solved id 1
  and the failed id 2 the first call reports a change, the second call is not made, and
  the model of the stage holds the id 1 only. The two calls one after the other would store
  both ids.
\<close>

theorem C1_failed_ids_are_skipped:
  "(case processStageStatistics [\<lparr>id_t = 1, solved = [1], failed = [2]\<rparr>] one_stage of
      Inl e \<Rightarrow> None
    | Inr m \<Rightarrow> Some (map id_d (data_m (solutions_m (nodes m ! 1))))) = Some [1]
   \<and> bindE (processSolutionIDs [1] NaN RemoteSolutionModel_ctor) (\<lambda>r1.
        bindE (processSolutionIDs [2] PosInf (snd r1)) (\<lambda>r2.
          Inr (fst r1, map id_d (data_m (snd r2))))) = Inr (True, [1, 2])"
  by code_simp

text \<open>
  The failing lookup of C5 is reached by two statistics batches for one stage: the solved
  id 3 is stored first, and the failed id 2 of the second batch is new but not larger.
\<close>

lemma statistics_reach_the_assertion:
  "bindE (processStageStatistics [\<lparr>id_t = 1, solved = [3], failed = []\<rparr>] one_stage)
     (processStageStatistics [\<lparr>id_t = 1, solved = [3], failed = [2]\<rparr>])
   = Inl AssertionFailed"
  by code_simp

section \<open>The empty description batch\<close>

lemma index_rc_root_row0:
  assumes "0 < length (nodes m)" and "children_m (nodes m ! 0) = c # cs" and "c < length (nodes m)"
    and "0 \<le> col" and "col < 3"
  shows "index_rc 0 col QModelIndex_ctor m = Inr (createIndex 0 col 0, mark_visited c m)"
  using assms by (simp add: index_rc_def columnCount_def root_m_def deref_def mark_visited_def)

lemma index_rc_root_childless:
  assumes "0 < length (nodes m)" and "children_m (nodes m ! 0) = []"
  shows "index_rc 0 col QModelIndex_ctor m = Inr (QModelIndex_ctor, m)"
  using assms by (simp add: index_rc_def columnCount_def root_m_def deref_def)

lemma mark_visited_twice: "c < length (nodes m) \<Longrightarrow> mark_visited c (mark_visited c m) = mark_visited c m"
  by (simp add: mark_visited_def)

lemma mark_visited_simps [simp]:
  "length (nodes (mark_visited c m)) = length (nodes m)"
  "id_to_stage_m (mark_visited c m) = id_to_stage_m m"
  "flags_m (mark_visited c m) = flags_m m"
  "signals (mark_visited c m) = signals m"
  by (simp_all add: mark_visited_def)

lemma mark_visited_children: "children_m (nodes (mark_visited c m) ! k) = children_m (nodes m ! k)"
proof (cases "c < length (nodes m)")
  case True
  then show ?thesis by (cases "k = c") (simp_all add: mark_visited_def)
next
  case False
  then have "length (nodes m) \<le> c" by simp
  then show ?thesis by (simp add: mark_visited_def list_update_beyond)
qed

text \<open>
  C9 (amended). On a model whose root exists, the empty description batch returns the
  model with the "destroyed" marker set and one more signal, \<^verbatim>\<open>dataChanged\<close> from
  column 0 to column 2 of row 0 under the root (with two invalid indexes when the root has
  no child). No node is added or removed and no name, capability flag, parent, child list
  or solution model changes; the one change in the tree is that the first child of the
  root, when there is one, is marked as visited, because the indexes of the signal are
  made by \<^verbatim>\<open>index(0, 0)\<close> and \<^verbatim>\<open>index(0, 2)\<close>.
\<close>

theorem C9_empty_batch_marks_destroyed:
  assumes "0 < length (nodes m)"
    and "case children_m (nodes m ! 0) of [] \<Rightarrow> True | c # cs \<Rightarrow> c < length (nodes m)"
  shows "processStageDescriptions [] m =
     Inr (case children_m (nodes m ! 0) of
            [] \<Rightarrow> emit (dataChanged QModelIndex_ctor QModelIndex_ctor) (destroyed m)
          | c # cs \<Rightarrow> emit (dataChanged (createIndex 0 0 0) (createIndex 0 2 0))
                       (mark_visited c (destroyed m)))"
proof (cases "children_m (nodes m ! 0)")
  case Nil
  then have "children_m (nodes (destroyed m) ! 0) = []" by (simp add: destroyed_def)
  then show ?thesis
    using assms(1) Nil index_rc_root_childless [of "destroyed m"]
    by (simp add: processStageDescriptions_def destroyed_def [symmetric]) (simp add: destroyed_def)
next
  case (Cons c cs)
  with assms(2) have c: "c < length (nodes m)" by simp
  let ?d = "destroyed m"
  have d: "0 < length (nodes ?d)" "children_m (nodes ?d ! 0) = c # cs" "c < length (nodes ?d)"
    using assms(1) Cons c by (simp_all add: destroyed_def)
  have tl: "index_rc 0 0 QModelIndex_ctor ?d = Inr (createIndex 0 0 0, mark_visited c ?d)"
    using d by (rule index_rc_root_row0) simp_all
  have d2: "0 < length (nodes (mark_visited c ?d))"
    "children_m (nodes (mark_visited c ?d) ! 0) = c # cs" "c < length (nodes (mark_visited c ?d))"
    using d by (simp_all add: mark_visited_children)
  have br: "index_rc 0 2 QModelIndex_ctor (mark_visited c ?d) = Inr (createIndex 0 2 0, mark_visited c ?d)"
    using index_rc_root_row0 [OF d2, of 2] d(3) by (simp add: mark_visited_twice)
  show ?thesis
    using Cons tl br by (simp add: processStageDescriptions_def destroyed_def [symmetric])
qed


text \<open>C9 at a concrete input: the model with one stage that no observer has visited.\<close>

theorem C9_empty_batch_witness:
  "(case processStageDescriptions [] one_stage of
      Inl e \<Rightarrow> False
    | Inr m \<Rightarrow> IS_DESTROYED \<in> flags_m m
        \<and> signals m = [dataChanged (createIndex 0 0 0) (createIndex 0 2 0)]
        \<and> map name_m (nodes m) = map name_m (nodes one_stage)
        \<and> map children_m (nodes m) = map children_m (nodes one_stage)
        \<and> map parent_m (nodes m) = map parent_m (nodes one_stage)
        \<and> map interface_flags_m (nodes m) = map interface_flags_m (nodes one_stage)
        \<and> map solutions_m (nodes m) = map solutions_m (nodes one_stage)
        \<and> map node_flags_m (nodes m) = [0, WAS_VISITED])
   \<and> map node_flags_m (nodes one_stage) = [0, 0]"
proof -
  have len: "0 < length (nodes one_stage)"
    by code_simp
  have kids: "children_m (nodes one_stage ! 0) = [1]"
    by code_simp
  have sg: "signals one_stage = []"
    by code_simp
  have fl: "map node_flags_m (nodes one_stage) = [0, 0]"
    by code_simp
  have l2: "length (nodes one_stage) = 2"
    by code_simp
  obtain a b where ab: "nodes one_stage = [a, b]"
    using l2 by (metis One_nat_def Suc_1 length_0_conv length_Suc_conv)
  have "processStageDescriptions [] one_stage =
      Inr (emit (dataChanged (createIndex 0 0 0) (createIndex 0 2 0))
             (mark_visited 1 (destroyed one_stage)))"
    using C9_empty_batch_marks_destroyed [OF len] kids l2 by simp
  then show ?thesis
    using sg fl ab by (simp add: emit_def mark_visited_def destroyed_def)
qed

text \<open>
  C9, as stated, fails: the empty batch modifies a flag of a node. The node flags of the
  stage are 0 before the batch and 1 (\<^verbatim>\<open>WAS_VISITED\<close>) after it.
\<close>

theorem C9_node_flag_counterexample:
  "node_flags_m (nodes one_stage ! 1) = 0
   \<and> (case processStageDescriptions [] one_stage of
        Inl e \<Rightarrow> None
      | Inr m \<Rightarrow> Some (node_flags_m (nodes m ! 1))) = Some 1"
  by code_simp

text \<open>The foreground of the top-level row turns red with the marker.\<close>

lemma destroyed_foreground:
  "(case processStageDescriptions [] one_stage of
      Inl e \<Rightarrow> None
    | Inr m \<Rightarrow> Some (data_ForegroundRole one_stage (createIndex 0 0 0),
                     data_ForegroundRole m (createIndex 0 0 0)))
   = Some (Inr palette_text_color, Inr QColor_red)"
  by code_simp

section \<open>Indexes and notifications\<close>

lemma find_row_Some: "find_row cs n = Some r \<Longrightarrow> r < length cs \<and> cs ! r = n"
  by (induction cs arbitrary: r) (auto split: if_splits option.splits)

lemma index_node_root: "index_node m root_m = Inr QModelIndex_ctor"
  by (simp add: index_node_def)

lemma index_node_child:
  assumes "index_node m n = Inr idx" and "n \<noteq> root_m"
  obtains r p where "idx = createIndex (int r) 0 p" and "n < length (nodes m)"
    and "parent_m (nodes m ! n) = Some p" and "p < length (nodes m)"
    and "r < length (children_m (nodes m ! p))" and "children_m (nodes m ! p) ! r = n"
proof -
  from assms obtain nd where nd: "deref m n = Inr nd"
    by (auto simp: index_node_def dest!: bindE_Inr)
  then have n: "n < length (nodes m)" "nd = nodes m ! n" by (auto dest: deref_Inr)
  from assms nd obtain p where p: "parent_m nd = Some p"
    by (cases "parent_m nd") (auto simp: index_node_def)
  from assms nd p obtain pn where pn: "deref m p = Inr pn"
    by (auto simp: index_node_def dest!: bindE_Inr)
  then have pl: "p < length (nodes m)" "pn = nodes m ! p" by (auto dest: deref_Inr)
  from assms nd p pn obtain r where r: "find_row (children_m pn) n = Some r"
    and idx: "idx = createIndex (int r) 0 p"
    by (cases "find_row (children_m pn) n") (auto simp: index_node_def)
  from find_row_Some [OF r] have "r < length (children_m pn)" "children_m pn ! r = n" by auto
  then show ?thesis using that idx n p pl by simp
qed

lemma node_index_index_node:
  assumes "index_node m n = Inr idx"
  shows "node_index m idx = Inr (Some n)"
proof (cases "n = root_m")
  case True
  then show ?thesis using assms by (simp add: index_node_def)
next
  case False
  from index_node_child [OF assms False] obtain r p where
    "idx = createIndex (int r) 0 p" "p < length (nodes m)"
    "r < length (children_m (nodes m ! p))" "children_m (nodes m ! p) ! r = n"
    by metis
  then show ?thesis by (simp add: deref_def)
qed

text \<open>The sibling of the index of a node, in column 1 or 2: only that node is marked.\<close>

lemma sibling_index_node:
  assumes idx: "index_node m n = Inr idx"
    and sib: "sibling idx (row idx) c m = Inr x"
    and c: "c = 1 \<or> c = 2"
  shows "fst x = with_column c idx \<and> snd x = (if n = root_m then m else mark_visited n m)"
proof (cases "n = root_m")
  case True
  then show ?thesis using idx sib by (auto simp: index_node_def sibling_def)
next
  case False
  from index_node_child [OF idx False] obtain r p where
    i: "idx = createIndex (int r) 0 p" and n: "n < length (nodes m)"
    and p: "p < length (nodes m)"
    and r: "r < length (children_m (nodes m ! p))" "children_m (nodes m ! p) ! r = n"
    by metis
  from sib i c obtain pidx where pidx: "parent_index m idx = Inr pidx"
    and rc: "index_rc (int r) c pidx m = Inr x"
    by (auto simp: sibling_def dest!: bindE_Inr)
  have "node_index m pidx = Inr (Some p)"
  proof (cases "p = root_m")
    case True
    then show ?thesis using pidx i by simp
  next
    case False
    then have "index_node m p = Inr pidx" using pidx i by simp
    then show ?thesis by (rule node_index_index_node)
  qed
  then have "x = (createIndex (int r) c p, mark_visited n m)"
    using rc c p r n
    by (auto simp: index_rc_def columnCount_def deref_def mark_visited_def)
  then show ?thesis using False i by simp
qed

lemma mark_visited_absorb:
  assumes "was_visited m n"
  shows "mark_visited n m = m"
proof -
  have "node_flags_m (nodes m ! n) OR WAS_VISITED = node_flags_m (nodes m ! n)"
    using assms by (simp add: was_visited_def visited_absorb)
  then show ?thesis by (simp add: mark_visited_def)
qed

lemma notify_row_visited:
  assumes "notify_row n m = Inr m'" and "was_visited m n"
  obtains idx where "index_node m n = Inr idx"
    and "m' = emit (dataChanged idx (with_column 2 idx)) m"
proof -
  from assms(1) obtain idx br where idx: "index_node m n = Inr idx"
    and br: "sibling idx (row idx) 2 m = Inr br"
    and m': "m' = emit (dataChanged idx (fst br)) (snd br)"
    by (auto simp: notify_row_def dest!: bindE_Inr)
  from sibling_index_node [OF idx br] have "fst br = with_column 2 idx" "snd br = m"
    using mark_visited_absorb [OF assms(2)] by auto
  then show ?thesis using that idx m' by simp
qed

lemma notify_counts_visited:
  assumes "notify_counts n m = Inr m'" and "was_visited m n"
  obtains idx where "index_node m n = Inr idx"
    and "m' = emit (dataChanged (with_column 1 idx) (with_column 2 idx)) m"
proof -
  from assms(1) obtain idx tl br where idx: "index_node m n = Inr idx"
    and tl: "sibling idx (row idx) 1 m = Inr tl"
    and br: "sibling idx (row idx) 2 (snd tl) = Inr br"
    and m': "m' = emit (dataChanged (fst tl) (fst br)) (snd br)"
    by (auto simp: notify_counts_def dest!: bindE_Inr)
  from sibling_index_node [OF idx tl] have t: "fst tl = with_column 1 idx" "snd tl = m"
    using mark_visited_absorb [OF assms(2)] by auto
  from sibling_index_node [OF idx] br t have "fst br = with_column 2 idx" "snd br = m"
    using mark_visited_absorb [OF assms(2)] by auto
  then show ?thesis using that idx m' t by simp
qed

text \<open>The index of a node depends on the parent links and the child lists only.\<close>

lemma index_node_cong:
  assumes "length (nodes m') = length (nodes m)"
    and "\<And>k. k < length (nodes m) \<Longrightarrow> parent_m (nodes m' ! k) = parent_m (nodes m ! k)"
    and "\<And>k. k < length (nodes m) \<Longrightarrow> children_m (nodes m' ! k) = children_m (nodes m ! k)"
  shows "index_node m' n = index_node m n"
  using assms
  by (auto simp: index_node_def deref_def bindE_def split: option.splits)

lemma set_content_alt:
  "set_content s p n m =
     (if n < length (nodes m) then
        (if parent_m (nodes m ! n) \<noteq> Some p then Inl AssertionFailed
         else if (name_m (new_content s (nodes m ! n)) \<noteq> name_m (nodes m ! n)
                  \<or> interface_flags_m (new_content s (nodes m ! n))
                      \<noteq> interface_flags_m (nodes m ! n))
                 \<and> was_visited m n
         then notify_row n (m\<lparr>nodes := (nodes m)[n := new_content s (nodes m ! n)]\<rparr>)
         else Inr (m\<lparr>nodes := (nodes m)[n := new_content s (nodes m ! n)]\<rparr>))
      else Inl InvalidPointer)"
proof (cases "n < length (nodes m)")
  case False
  then show ?thesis by (simp add: set_content_def deref_def)
next
  case True
  show ?thesis
  proof (cases "node_flags_m (nodes m ! n) AND NAME_CHANGED = 0")
    case unset: True
    show ?thesis
      using True unset
      by (cases "name_s s = name_m (nodes m ! n)")
        (simp_all add: set_content_def deref_def new_content_def setName_def Let_def
          was_visited_def)
  next
    case set: False
    show ?thesis
      using True set
      by (simp add: set_content_def deref_def new_content_def Let_def was_visited_def)
  qed
qed

lemma set_content_effect:
  assumes "set_content s p n m = Inr m'"
  obtains "n < length (nodes m)" and "parent_m (nodes m ! n) = Some p"
    and "\<not> (was_visited m n \<and> (name_m (new_content s (nodes m ! n)) \<noteq> name_m (nodes m ! n)
            \<or> interface_flags_m (new_content s (nodes m ! n)) \<noteq> interface_flags_m (nodes m ! n)))"
    and "m' = m\<lparr>nodes := (nodes m)[n := new_content s (nodes m ! n)]\<rparr>"
  | idx where "n < length (nodes m)" and "parent_m (nodes m ! n) = Some p"
    and "was_visited m n"
    and "name_m (new_content s (nodes m ! n)) \<noteq> name_m (nodes m ! n)
            \<or> interface_flags_m (new_content s (nodes m ! n)) \<noteq> interface_flags_m (nodes m ! n)"
    and "index_node m n = Inr idx"
    and "m' = emit (dataChanged idx (with_column 2 idx))
                (m\<lparr>nodes := (nodes m)[n := new_content s (nodes m ! n)]\<rparr>)"
proof -
  define m1 where "m1 = m\<lparr>nodes := (nodes m)[n := new_content s (nodes m ! n)]\<rparr>"
  define changed where "changed =
    (name_m (new_content s (nodes m ! n)) \<noteq> name_m (nodes m ! n)
      \<or> interface_flags_m (new_content s (nodes m ! n)) \<noteq> interface_flags_m (nodes m ! n))"
  from assms have n: "n < length (nodes m)"
    by (auto simp: set_content_alt split: if_splits)
  from assms n have par: "parent_m (nodes m ! n) = Some p"
    by (auto simp: set_content_alt split: if_splits)
  from assms n par have res:
    "(if changed \<and> was_visited m n then notify_row n m1 else Inr m1) = Inr m'"
    unfolding set_content_alt m1_def changed_def by (simp only: if_True if_False simp_thms)
  show ?thesis
  proof (cases "changed \<and> was_visited m n")
    case False
    then have "m' = m1" using res by auto
    then show ?thesis
      using that(1) n par False by (auto simp: m1_def changed_def)
  next
    case True
    then have nr: "notify_row n m1 = Inr m'" using res by auto
    have v1: "was_visited m1 n"
      using True n by (simp add: m1_def was_visited_def new_content_def)
    from notify_row_visited [OF nr v1] obtain idx where
      idx1: "index_node m1 n = Inr idx" and m': "m' = emit (dataChanged idx (with_column 2 idx)) m1"
      by metis
    have "index_node m1 n = index_node m n"
      by (rule index_node_cong)
        (auto simp: m1_def new_content_def nth_list_update n)
    then have "index_node m n = Inr idx" using idx1 by simp
    then show ?thesis
      using that(2) n par True m' by (auto simp: m1_def changed_def)
  qed
qed

section \<open>Statistics: the reported change\<close>

lemma findById_Some: "findById ds i = Some k \<Longrightarrow> k < length ds \<and> id_d (ds ! k) = i"
  by (induction ds arbitrary: k) (auto split: if_splits option.splits)

lemma isVisible_cost_rank [simp]: "isVisible sm (d\<lparr>cost_rank := r\<rparr>) = isVisible sm d"
  by (simp add: isVisible_def)

lemma isVisible_data_update [simp]: "isVisible (sm\<lparr>data_m := ds\<rparr>) = isVisible sm"
  by (rule ext) (simp add: isVisible_def)

lemma filter_length_update:
  "k < length xs \<Longrightarrow> P y = P (xs ! k) \<Longrightarrow> length (filter P (xs[k := y])) = length (filter P xs)"
proof (induction xs arbitrary: k)
  case Nil
  then show ?case by simp
next
  case (Cons x xs)
  then show ?case by (cases k) auto
qed

lemma process_pair_count:
  assumes "process_pair dc p (sm, ch) = Inr (sm', ch')"
  shows "isVisible sm' = isVisible sm \<and> visible_count sm \<le> visible_count sm'
         \<and> (ch' \<longleftrightarrow> ch \<or> visible_count sm' \<noteq> visible_count sm)"
proof (cases "data_m sm = [] \<or> fst p > id_d (last (data_m sm))")
  case True
  then have "sm' = sm\<lparr>data_m := data_m sm @ [Data_ctor (fst p) dc (1 + of_nat (length (data_m sm))) (snd p)]\<rparr>"
    and "ch' = (ch \<or> isVisible sm (Data_ctor (fst p) dc (1 + of_nat (length (data_m sm))) (snd p)))"
    using assms by (auto simp: process_pair_def Let_def)
  then show ?thesis by (auto simp: visible_count_def)
next
  case False
  with assms obtain k where k: "findById (data_m sm) (fst p) = Some k"
    by (cases "findById (data_m sm) (fst p)") (auto simp: process_pair_def Let_def)
  then have kl: "k < length (data_m sm)" by (auto dest: findById_Some)
  from assms False k have "sm' = sm\<lparr>data_m := (data_m sm)[k := (data_m sm ! k)\<lparr>cost_rank := snd p\<rparr>]\<rparr>"
    and "ch' = ch"
    by (auto simp: process_pair_def Let_def)
  then show ?thesis using kl by (simp add: visible_count_def filter_length_update)
qed

lemma process_pairs_count:
  "process_pairs dc ps (sm, ch) = Inr (sm', ch') \<Longrightarrow>
   isVisible sm' = isVisible sm \<and> visible_count sm \<le> visible_count sm'
   \<and> (ch' \<longleftrightarrow> ch \<or> visible_count sm' \<noteq> visible_count sm)"
proof (induction ps arbitrary: sm ch)
  case Nil
  then show ?case by simp
next
  case (Cons p ps)
  from Cons.prems obtain sm1 ch1 where
    one: "process_pair dc p (sm, ch) = Inr (sm1, ch1)"
    and rest: "process_pairs dc ps (sm1, ch1) = Inr (sm', ch')"
    by (auto dest!: bindE_Inr)
  from process_pair_count [OF one] Cons.IH [OF rest] show ?case by auto
qed

lemma sortInternal_count [simp]:
  "visible_count (sortInternal sm) = visible_count sm"
  by (simp add: sortInternal_def visible_count_def isVisible_def [abs_def] Let_def)

lemma sortInternal_isVisible [simp]: "isVisible (sortInternal sm) = isVisible sm"
  by (rule ext) (simp add: sortInternal_def isVisible_def Let_def)

lemma processSolutionIDs_count:
  assumes "processSolutionIDs ids dc sm = Inr (ch, sm')"
  shows "isVisible sm' = isVisible sm \<and> visible_count sm \<le> visible_count sm'
         \<and> (ch \<longleftrightarrow> visible_count sm' \<noteq> visible_count sm)"
proof -
  from assms obtain st where st: "process_pairs dc
      (std_sort (\<lambda>left right. fst left < fst right) (number_ids 0 ids)) (sm, False) = Inr st"
    and res: "ch = snd st" "sm' = sortInternal (fst st)"
    by (auto simp: processSolutionIDs_def Let_def dest!: bindE_Inr)
  from process_pairs_count [of dc _ sm False "fst st" "snd st"] st
  show ?thesis using res by simp
qed

text \<open>The two calls of an entry report a change exactly when the visible count has changed.\<close>

lemma both_lists_count:
  assumes "processSolutionIDs sv NaN sm = Inr r1"
    and "(if fst r1 then Inr r1 else processSolutionIDs fl PosInf (snd r1)) = Inr r2"
  shows "fst r2 \<longleftrightarrow> visible_count (snd r2) \<noteq> visible_count sm"
proof -
  from processSolutionIDs_count [of sv NaN sm "fst r1" "snd r1"] assms(1)
  have one: "visible_count sm \<le> visible_count (snd r1)"
    "fst r1 \<longleftrightarrow> visible_count (snd r1) \<noteq> visible_count sm"
    by simp_all
  show ?thesis
  proof (cases "fst r1")
    case True
    then show ?thesis using assms(2) one by auto
  next
    case False
    then have "processSolutionIDs fl PosInf (snd r1) = Inr (fst r2, snd r2)"
      using assms(2) by simp
    from processSolutionIDs_count [OF this] False one show ?thesis by simp
  qed
qed

lemma update_statistics_effect:
  assumes "update_statistics s m = Inr m'" and "id_to_stage_m m (id_t s) = Some n"
  obtains sm where "n < length (nodes m)"
    and "\<not> (was_visited m n \<and> visible_count sm \<noteq> visible_count (solutions_m (nodes m ! n)))"
    and "m' = m\<lparr>nodes := (nodes m)[n := (nodes m ! n)\<lparr>solutions_m := sm\<rparr>]\<rparr>"
  | sm idx where "n < length (nodes m)" and "was_visited m n"
    and "visible_count sm \<noteq> visible_count (solutions_m (nodes m ! n))"
    and "index_node m n = Inr idx"
    and "m' = emit (dataChanged (with_column 1 idx) (with_column 2 idx))
                (m\<lparr>nodes := (nodes m)[n := (nodes m ! n)\<lparr>solutions_m := sm\<rparr>]\<rparr>)"
proof -
  from assms obtain nd where nd: "deref m n = Inr nd"
    by (auto simp: update_statistics_def dest!: bindE_Inr)
  then have n: "n < length (nodes m)" "nd = nodes m ! n" by (auto dest: deref_Inr)
  from assms nd obtain r1 where
    r1: "processSolutionIDs (solved s) NaN (solutions_m nd) = Inr r1"
    by (auto simp: update_statistics_def dest!: bindE_Inr)
  from assms nd r1 obtain r2 where
    r2: "(if fst r1 then Inr r1 else processSolutionIDs (failed s) PosInf (snd r1)) = Inr r2"
    by (auto simp: update_statistics_def dest!: bindE_Inr)
  define m1 where "m1 = m\<lparr>nodes := (nodes m)[n := nd\<lparr>solutions_m := snd r2\<rparr>]\<rparr>"
  from both_lists_count [OF r1 r2]
  have ch: "fst r2 \<longleftrightarrow> visible_count (snd r2) \<noteq> visible_count (solutions_m nd)" .
  from assms nd r1 r2 have res:
    "(if fst r2 \<and> was_visited m n then notify_counts n m1 else Inr m1) = Inr m'"
    using n by (auto simp add: update_statistics_def Let_def m1_def was_visited_def split: if_splits)
  show ?thesis
  proof (cases "fst r2 \<and> was_visited m n")
    case False
    then have "m' = m1" using res by auto
    then show ?thesis using that(1) [of "snd r2"] n False ch by (auto simp: m1_def)
  next
    case True
    then have nc: "notify_counts n m1 = Inr m'" using res by auto
    have v1: "was_visited m1 n" using True n by (simp add: m1_def was_visited_def)
    from notify_counts_visited [OF nc v1] obtain idx where
      idx1: "index_node m1 n = Inr idx"
      and m': "m' = emit (dataChanged (with_column 1 idx) (with_column 2 idx)) m1"
      by metis
    have "index_node m1 n = index_node m n"
      by (rule index_node_cong) (auto simp: m1_def nth_list_update n)
    then have "index_node m n = Inr idx" using idx1 by simp
    then show ?thesis using that(2) [of "snd r2" idx] n True ch m' by (auto simp: m1_def)
  qed
qed

section \<open>Which notifications a description or a statistics entry emits\<close>

lemma create_node_effect:
  assumes "create_node i p m = Inr x"
  obtains pidx where "p < length (nodes m)" and "index_node m p = Inr pidx"
    and "fst x = length (nodes m)"
    and "nodes (snd x) = (nodes m)[p := (nodes m ! p)\<lparr>children_m :=
            children_m (nodes m ! p) @ [length (nodes m)]\<rparr>] @ [Node_ctor (Some p)]"
    and "id_to_stage_m (snd x) = (id_to_stage_m m)(i \<mapsto> length (nodes m))"
    and "flags_m (snd x) = flags_m m"
    and "signals (snd x) = signals m @
           (if was_visited m p
            then [beginInsertRows pidx (int (length (children_m (nodes m ! p))))
                    (int (length (children_m (nodes m ! p)))), endInsertRows]
            else [])"
proof -
  from assms obtain pn where pn: "deref m p = Inr pn"
    by (auto simp: create_node_def dest!: bindE_Inr)
  then have p: "p < length (nodes m)" "pn = nodes m ! p" by (auto dest: deref_Inr)
  from assms pn obtain pidx where pidx: "index_node m p = Inr pidx"
    by (auto simp: create_node_def dest!: bindE_Inr)
  show ?thesis
  proof (cases "was_visited m p")
    case True
    with assms pn pidx p have "x = (length (nodes m),
        (emit endInsertRows ((emit (beginInsertRows pidx (int (length (children_m pn)))
              (int (length (children_m pn)))) m)
           \<lparr>nodes := (nodes m)[p := pn\<lparr>children_m := children_m pn @ [length (nodes m)]\<rparr>]
                       @ [Node_ctor (Some p)]\<rparr>))
           \<lparr>id_to_stage_m := (id_to_stage_m m)(i \<mapsto> length (nodes m))\<rparr>)"
      by (simp add: create_node_def Let_def was_visited_def emit_def)
    then show ?thesis using that [OF p(1) pidx] True p by (simp add: emit_def)
  next
    case False
    with assms pn pidx p have "x = (length (nodes m),
        m\<lparr>nodes := (nodes m)[p := pn\<lparr>children_m := children_m pn @ [length (nodes m)]\<rparr>]
                       @ [Node_ctor (Some p)],
          id_to_stage_m := (id_to_stage_m m)(i \<mapsto> length (nodes m))\<rparr>)"
      by (simp add: create_node_def Let_def was_visited_def)
    then show ?thesis using that [OF p(1) pidx] False p by simp
  qed
qed

lemma fresh_node_unvisited:
  assumes "nodes m1 = ns @ [Node_ctor (Some p)]" and "n = length ns"
  shows "\<not> was_visited m1 n" and "nodes m1 ! n = Node_ctor (Some p)"
  using assms by (simp_all add: was_visited_def Node_ctor_def)

lemma set_content_unvisited:
  assumes "set_content s p n m = Inr m'" and "\<not> was_visited m n"
  shows "m' = m\<lparr>nodes := (nodes m)[n := new_content s (nodes m ! n)]\<rparr>"
  using assms(1)
proof (cases rule: set_content_effect)
  case 1
  then show ?thesis by simp
next
  case (2 idx)
  then show ?thesis using assms(2) by simp
qed

lemma describe_stage_skip:
  "id_to_stage_m m (parent_id s) = None \<Longrightarrow> describe_stage s m = Inr m"
  by (simp add: describe_stage_def)

lemma describe_stage_create:
  "id_to_stage_m m (parent_id s) = Some p \<Longrightarrow> id_to_stage_m m (id_s s) = None \<Longrightarrow>
   describe_stage s m =
     bindE (create_node (id_s s) p m) (\<lambda>r. set_content s p (fst r) (snd r))"
  by (simp add: describe_stage_def)

lemma describe_stage_update:
  "id_to_stage_m m (parent_id s) = Some p \<Longrightarrow> id_to_stage_m m (id_s s) = Some n \<Longrightarrow>
   describe_stage s m = set_content s p n m"
  by (simp add: describe_stage_def)

text \<open>
  C8 (amended). For one description \<open>s\<close> applied to the model \<open>m\<close> without a failed
  assertion: when the parent id is unknown nothing is emitted; when the stage is new, the
  row-insertion bracket is emitted exactly when the parent node was visited, and nothing
  else; when the stage is known as node \<open>n\<close>, exactly one \<^verbatim>\<open>dataChanged\<close> over the
  columns 0 to 2 of the row of \<open>n\<close> is emitted when \<open>n\<close> was visited and its name or its
  capability flags have changed, and nothing otherwise. For one statistics entry \<open>t\<close>:
  nothing is emitted for an unknown stage; for the node \<open>k\<close> of a known stage exactly one
  \<^verbatim>\<open>dataChanged\<close> over the columns 1 to 2 of its row is emitted when \<open>k\<close> was visited
  and the number of its visible solution records has changed, and nothing otherwise. (The
  notification that ends an empty description batch is not gated; see C9.)
\<close>

theorem C8_notifications_are_gated:
  "(describe_stage s m = Inr m' \<and> id_to_stage_m m (parent_id s) = None
      \<longrightarrow> signals m' = signals m)
   \<and> (describe_stage s m = Inr m' \<and> id_to_stage_m m (parent_id s) = Some p
        \<and> id_to_stage_m m (id_s s) = None \<and> index_node m p = Inr pidx
      \<longrightarrow> signals m' = signals m @
            (if was_visited m p
             then [beginInsertRows pidx (int (length (children_m (nodes m ! p))))
                     (int (length (children_m (nodes m ! p)))), endInsertRows]
             else []))
   \<and> (describe_stage s m = Inr m' \<and> id_to_stage_m m (parent_id s) = Some p
        \<and> id_to_stage_m m (id_s s) = Some n \<and> index_node m n = Inr idx
      \<longrightarrow> signals m' = signals m @
            (if was_visited m n
                \<and> (name_m (nodes m' ! n) \<noteq> name_m (nodes m ! n)
                    \<or> interface_flags_m (nodes m' ! n) \<noteq> interface_flags_m (nodes m ! n))
             then [dataChanged idx (with_column 2 idx)]
             else []))
   \<and> (update_statistics t m = Inr m'' \<and> id_to_stage_m m (id_t t) = None
      \<longrightarrow> signals m'' = signals m)
   \<and> (update_statistics t m = Inr m'' \<and> id_to_stage_m m (id_t t) = Some k
        \<and> index_node m k = Inr kidx
      \<longrightarrow> signals m'' = signals m @
            (if was_visited m k
                \<and> visible_count (solutions_m (nodes m'' ! k))
                    \<noteq> visible_count (solutions_m (nodes m ! k))
             then [dataChanged (with_column 1 kidx) (with_column 2 kidx)]
             else []))"
proof (intro conjI impI)
  assume "describe_stage s m = Inr m' \<and> id_to_stage_m m (parent_id s) = None"
  then show "signals m' = signals m" by (auto simp: describe_stage_skip)
next
  assume a: "describe_stage s m = Inr m' \<and> id_to_stage_m m (parent_id s) = Some p
        \<and> id_to_stage_m m (id_s s) = None \<and> index_node m p = Inr pidx"
  then obtain x where x: "create_node (id_s s) p m = Inr x"
    and sc: "set_content s p (fst x) (snd x) = Inr m'"
    by (auto simp: describe_stage_create dest!: bindE_Inr)
  from x obtain pidx' where cn: "index_node m p = Inr pidx'" "fst x = length (nodes m)"
    "nodes (snd x) = (nodes m)[p := (nodes m ! p)\<lparr>children_m :=
            children_m (nodes m ! p) @ [length (nodes m)]\<rparr>] @ [Node_ctor (Some p)]"
    "signals (snd x) = signals m @
           (if was_visited m p
            then [beginInsertRows pidx' (int (length (children_m (nodes m ! p))))
                    (int (length (children_m (nodes m ! p)))), endInsertRows]
            else [])"
    by (rule create_node_effect)
  have "\<not> was_visited (snd x) (fst x)"
    using fresh_node_unvisited(1) [OF cn(3)] cn(2) by simp
  from set_content_unvisited [OF sc this] have "signals m' = signals (snd x)" by simp
  then show "signals m' = signals m @
            (if was_visited m p
             then [beginInsertRows pidx (int (length (children_m (nodes m ! p))))
                     (int (length (children_m (nodes m ! p)))), endInsertRows]
             else [])"
    using cn a by simp
next
  assume a: "describe_stage s m = Inr m' \<and> id_to_stage_m m (parent_id s) = Some p
        \<and> id_to_stage_m m (id_s s) = Some n \<and> index_node m n = Inr idx"
  then have sc: "set_content s p n m = Inr m'" by (auto simp: describe_stage_update)
  from sc show "signals m' = signals m @
            (if was_visited m n
                \<and> (name_m (nodes m' ! n) \<noteq> name_m (nodes m ! n)
                    \<or> interface_flags_m (nodes m' ! n) \<noteq> interface_flags_m (nodes m ! n))
             then [dataChanged idx (with_column 2 idx)]
             else [])"
  proof (cases rule: set_content_effect)
    case 1
    then show ?thesis by auto
  next
    case (2 idx')
    then show ?thesis using a by (auto simp: emit_def)
  qed
next
  assume "update_statistics t m = Inr m'' \<and> id_to_stage_m m (id_t t) = None"
  then show "signals m'' = signals m" by (auto simp: update_statistics_def)
next
  assume a: "update_statistics t m = Inr m'' \<and> id_to_stage_m m (id_t t) = Some k
        \<and> index_node m k = Inr kidx"
  then have us: "update_statistics t m = Inr m''" and k: "id_to_stage_m m (id_t t) = Some k"
    by simp_all
  from us k show "signals m'' = signals m @
            (if was_visited m k
                \<and> visible_count (solutions_m (nodes m'' ! k))
                    \<noteq> visible_count (solutions_m (nodes m ! k))
             then [dataChanged (with_column 1 kidx) (with_column 2 kidx)]
             else [])"
  proof (cases rule: update_statistics_effect)
    case (1 sm)
    then show ?thesis by auto
  next
    case (2 sm idx')
    then show ?thesis using a by (auto simp: emit_def)
  qed
qed


text \<open>
  C8 at concrete inputs: a new name for the visited stage, the same for the stage that was
  not visited, and a new solved id for the visited stage.
\<close>

theorem C8_notifications_witness:
  "(case describe_stage (stage1 ''renamed'') one_stage_visited of
      Inl e \<Rightarrow> False
    | Inr m' \<Rightarrow> signals m' = [dataChanged (createIndex 0 0 0) (createIndex 0 2 0)])
   \<and> (case describe_stage (stage1 ''renamed'') one_stage of
        Inl e \<Rightarrow> False
      | Inr m' \<Rightarrow> signals m' = [])
   \<and> (case update_statistics \<lparr>id_t = 1, solved = [1], failed = []\<rparr> one_stage_visited of
        Inl e \<Rightarrow> False
      | Inr m' \<Rightarrow> signals m' = [dataChanged (createIndex 0 1 0) (createIndex 0 2 0)])"
proof -
  let ?s = "stage1 ''renamed''"
  let ?t = "\<lparr>id_t = 1, solved = [1], failed = []\<rparr>"
  have ids: "id_to_stage_m one_stage_visited (parent_id ?s) = Some 0"
    "id_to_stage_m one_stage_visited (id_s ?s) = Some 1"
    "id_to_stage_m one_stage (parent_id ?s) = Some 0"
    "id_to_stage_m one_stage (id_s ?s) = Some 1"
    "id_to_stage_m one_stage_visited (id_t ?t) = Some 1"
    by code_simp+
  have idx: "index_node one_stage_visited 1 = Inr (createIndex 0 0 0)"
    "index_node one_stage 1 = Inr (createIndex 0 0 0)"
    by code_simp+
  have vis: "was_visited one_stage_visited 1" "\<not> was_visited one_stage 1"
    by code_simp+
  have sg: "signals one_stage_visited = []" "signals one_stage = []"
    by code_simp+
  have "case describe_stage ?s one_stage_visited of Inl e \<Rightarrow> False
        | Inr m' \<Rightarrow> name_m (nodes m' ! 1) \<noteq> name_m (nodes one_stage_visited ! 1)"
    by code_simp
  then obtain m1 where m1: "describe_stage ?s one_stage_visited = Inr m1"
    and n1: "name_m (nodes m1 ! 1) \<noteq> name_m (nodes one_stage_visited ! 1)"
    by (auto split: sum.splits)
  have "case describe_stage ?s one_stage of Inl e \<Rightarrow> False | Inr m' \<Rightarrow> True"
    by code_simp
  then obtain m2 where m2: "describe_stage ?s one_stage = Inr m2"
    by (auto split: sum.splits)
  have "case update_statistics ?t one_stage_visited of Inl e \<Rightarrow> False
        | Inr m' \<Rightarrow> visible_count (solutions_m (nodes m' ! 1))
                     \<noteq> visible_count (solutions_m (nodes one_stage_visited ! 1))"
    by code_simp
  then obtain m3 where m3: "update_statistics ?t one_stage_visited = Inr m3"
    and n3: "visible_count (solutions_m (nodes m3 ! 1))
               \<noteq> visible_count (solutions_m (nodes one_stage_visited ! 1))"
    by (auto split: sum.splits)
  have "signals m1 = [dataChanged (createIndex 0 0 0) (createIndex 0 2 0)]"
    using C8_notifications_are_gated [where s = ?s and m = one_stage_visited and m' = m1
        and p = 0 and n = 1 and idx = "createIndex 0 0 0"]
      m1 n1 ids idx vis sg by simp
  moreover have "signals m2 = []"
    using C8_notifications_are_gated [where s = ?s and m = one_stage and m' = m2
        and p = 0 and n = 1 and idx = "createIndex 0 0 0"]
      m2 ids idx vis sg by simp
  moreover have "signals m3 = [dataChanged (createIndex 0 1 0) (createIndex 0 2 0)]"
    using C8_notifications_are_gated [where t = ?t and m = one_stage_visited and m'' = m3
        and k = 1 and kidx = "createIndex 0 0 0"]
      m3 n3 ids idx vis sg by simp
  ultimately show ?thesis using m1 m2 m3 by simp
qed

text \<open>
  C8, as stated, fails on both halves. The empty description batch emits
  \<^verbatim>\<open>dataChanged\<close> for the row of a stage whose node flags were 0, which no observer
  had visited. And for a visited stage, a statistics entry with one new failed id stores
  the record of that id without any notification.
\<close>

theorem C8_unvisited_node_counterexample:
  "node_flags_m (nodes one_stage ! 1) = 0
   \<and> (case processStageDescriptions [] one_stage of
        Inl e \<Rightarrow> None
      | Inr m \<Rightarrow> Some (signals m)) = Some [dataChanged (createIndex 0 0 0) (createIndex 0 2 0)]
   \<and> map id_d (data_m (solutions_m (nodes one_stage_visited ! 1))) = []
   \<and> (case processStageStatistics [\<lparr>id_t = 1, solved = [], failed = [2]\<rparr>] one_stage_visited of
        Inl e \<Rightarrow> None
      | Inr m \<Rightarrow> Some (signals m, map id_d (data_m (solutions_m (nodes m ! 1)))))
       = Some ([], [2])"
  by code_simp

section \<open>Applying a description batch twice\<close>

lemma new_content_idem [simp]: "new_content s (new_content s nd) = new_content s nd"
  by (simp add: new_content_def)

lemma new_content_fields [simp]:
  "parent_m (new_content s nd) = parent_m nd"
  "children_m (new_content s nd) = children_m nd"
  "node_flags_m (new_content s nd) = node_flags_m nd"
  "solutions_m (new_content s nd) = solutions_m nd"
  by (simp_all add: new_content_def)

lemma describe_stage_shape:
  assumes "describe_stage s m = Inr m'"
  obtains (skip) "id_to_stage_m m (parent_id s) = None" and "m' = m"
  | (update) p n where "id_to_stage_m m (parent_id s) = Some p"
      and "id_to_stage_m m (id_s s) = Some n" and "n < length (nodes m)"
      and "parent_m (nodes m ! n) = Some p"
      and "nodes m' = (nodes m)[n := new_content s (nodes m ! n)]"
      and "id_to_stage_m m' = id_to_stage_m m"
      and "\<not> was_visited m n \<or> content_is s m n \<Longrightarrow> signals m' = signals m"
  | (create) p where "id_to_stage_m m (parent_id s) = Some p"
      and "id_to_stage_m m (id_s s) = None" and "p < length (nodes m)"
      and "nodes m' = (nodes m)[p := (nodes m ! p)\<lparr>children_m :=
              children_m (nodes m ! p) @ [length (nodes m)]\<rparr>]
            @ [new_content s (Node_ctor (Some p))]"
      and "id_to_stage_m m' = (id_to_stage_m m)(id_s s \<mapsto> length (nodes m))"
      and "\<not> was_visited m p \<Longrightarrow> signals m' = signals m"
proof (cases "id_to_stage_m m (parent_id s)")
  case None
  then have "m' = m" using assms by (simp add: describe_stage_skip)
  then show ?thesis using skip None by blast
next
  case (Some p)
  show ?thesis
  proof (cases "id_to_stage_m m (id_s s)")
    case (Some n)
    with \<open>id_to_stage_m m (parent_id s) = Some p\<close> assms
    have sc: "set_content s p n m = Inr m'" by (simp add: describe_stage_update)
    from sc show ?thesis
    proof (cases rule: set_content_effect)
      case 1
      have "nodes m' = (nodes m)[n := new_content s (nodes m ! n)]"
        "id_to_stage_m m' = id_to_stage_m m" "signals m' = signals m"
        using 1(4) by simp_all
      then show ?thesis
        using update [OF \<open>id_to_stage_m m (parent_id s) = Some p\<close> Some 1(1,2)] by blast
    next
      case (2 idx)
      have "nodes m' = (nodes m)[n := new_content s (nodes m ! n)]"
        "id_to_stage_m m' = id_to_stage_m m"
        using 2(6) by (simp_all add: emit_def)
      moreover have "\<not> (\<not> was_visited m n \<or> content_is s m n)"
        using 2(3,4) by (auto simp: content_is_def)
      ultimately show ?thesis
        using update [OF \<open>id_to_stage_m m (parent_id s) = Some p\<close> Some 2(1,2)] by blast
    qed
  next
    case None
    with Some assms obtain x where x: "create_node (id_s s) p m = Inr x"
      and sc: "set_content s p (fst x) (snd x) = Inr m'"
      by (auto simp: describe_stage_create dest!: bindE_Inr)
    from x obtain pidx where cn: "p < length (nodes m)" "fst x = length (nodes m)"
      "nodes (snd x) = (nodes m)[p := (nodes m ! p)\<lparr>children_m :=
            children_m (nodes m ! p) @ [length (nodes m)]\<rparr>] @ [Node_ctor (Some p)]"
      "id_to_stage_m (snd x) = (id_to_stage_m m)(id_s s \<mapsto> length (nodes m))"
      "signals (snd x) = signals m @
           (if was_visited m p
            then [beginInsertRows pidx (int (length (children_m (nodes m ! p))))
                    (int (length (children_m (nodes m ! p)))), endInsertRows]
            else [])"
      by (rule create_node_effect)
    have unv: "\<not> was_visited (snd x) (fst x)"
      using fresh_node_unvisited(1) [OF cn(3)] cn(2) by simp
    have at: "nodes (snd x) ! fst x = Node_ctor (Some p)"
      using fresh_node_unvisited(2) [OF cn(3)] cn(2) by simp
    from set_content_unvisited [OF sc unv]
    have m': "m' = (snd x)\<lparr>nodes := (nodes (snd x))[fst x := new_content s (Node_ctor (Some p))]\<rparr>"
      using at by simp
    have "nodes m' = (nodes m)[p := (nodes m ! p)\<lparr>children_m :=
              children_m (nodes m ! p) @ [length (nodes m)]\<rparr>]
            @ [new_content s (Node_ctor (Some p))]"
      using m' cn(2,3) by (simp add: list_update_append)
    moreover have "id_to_stage_m m' = (id_to_stage_m m)(id_s s \<mapsto> length (nodes m))"
      using m' cn(4) by simp
    moreover have "\<not> was_visited m p \<Longrightarrow> signals m' = signals m"
      using m' cn(5) by simp
    ultimately show ?thesis using create [OF Some None cn(1)] by blast
  qed
qed

lemma describe_stage_well_formed:
  assumes "describe_stage s m = Inr m'" and "well_formed m"
  shows "well_formed m'"
  using assms(1)
proof (cases rule: describe_stage_shape)
  case skip
  then show ?thesis using assms(2) by simp
next
  case (update p n)
  have "parent_m (nodes m' ! h) = parent_m (nodes m ! h)" if "h < length (nodes m)" for h
    using that update(5) by (cases "h = n") simp_all
  then show ?thesis
    using assms(2) update(5,6) unfolding well_formed_def by simp
next
  case (create p)
  let ?N = "length (nodes m)"
  have len: "length (nodes m') = Suc ?N" using create(4) by simp
  have par: "parent_m (nodes m' ! h) = parent_m (nodes m ! h)" if "h < ?N" for h
    using that create(4) by (cases "h = p") (simp_all add: nth_append)
  have parN: "parent_m (nodes m' ! ?N) = Some p"
    using create(4) by (simp add: nth_append Node_ctor_def)
  from assms(2) have w1: "\<And>i h. id_to_stage_m m i = Some h \<Longrightarrow> h < ?N"
    and w2: "\<And>i j h. id_to_stage_m m i = Some h \<Longrightarrow> id_to_stage_m m j = Some h \<Longrightarrow> i = j"
    and w3: "\<And>h p. h < ?N \<Longrightarrow> parent_m (nodes m ! h) = Some p \<Longrightarrow> p < h"
    unfolding well_formed_def by blast+
  show ?thesis
    unfolding well_formed_def
  proof (intro conjI allI impI)
    fix i h assume "id_to_stage_m m' i = Some h"
    then show "h < length (nodes m')"
      using create(5) len w1 by (auto split: if_splits simp: less_Suc_eq)
  next
    fix i j h assume "id_to_stage_m m' i = Some h" "id_to_stage_m m' j = Some h"
    then show "i = j"
      using create(5) w1 w2 by (auto split: if_splits)
  next
    fix h q assume h: "h < length (nodes m')" and q: "parent_m (nodes m' ! h) = Some q"
    show "q < h"
    proof (cases "h = ?N")
      case True
      then show ?thesis using q parN create(3) by simp
    next
      case False
      then have "h < ?N" using h len by simp
      then show ?thesis using q par w3 by simp
    qed
  qed
qed

lemma describe_stage_grown:
  assumes "describe_stage s m = Inr m'" and "grown_from m0 m"
  shows "grown_from m0 m'"
  using assms(1)
proof (cases rule: describe_stage_shape)
  case skip
  then show ?thesis using assms(2) by simp
next
  case (update p n)
  have "node_flags_m (nodes m' ! h) = node_flags_m (nodes m ! h)" if "h < length (nodes m)" for h
    using that update(5) by (cases "h = n") simp_all
  then show ?thesis
    using assms(2) update(5,6) unfolding grown_from_def by simp
next
  case (create p)
  let ?N = "length (nodes m)"
  have len: "length (nodes m') = Suc ?N" using create(4) by simp
  have fl: "node_flags_m (nodes m' ! h) = node_flags_m (nodes m ! h)" if "h < ?N" for h
    using that create(4) by (cases "h = p") (simp_all add: nth_append)
  have flN: "node_flags_m (nodes m' ! ?N) = 0"
    using create(4) by (simp add: nth_append Node_ctor_def)
  from assms(2) have g1: "length (nodes m0) \<le> ?N"
    and g2: "\<And>i h. id_to_stage_m m0 i = Some h \<Longrightarrow> id_to_stage_m m i = Some h"
    and g3: "\<And>i h. id_to_stage_m m i = Some h \<Longrightarrow> id_to_stage_m m0 i = None \<Longrightarrow>
               length (nodes m0) \<le> h"
    and g4: "\<And>h. length (nodes m0) \<le> h \<Longrightarrow> h < ?N \<Longrightarrow> node_flags_m (nodes m ! h) = 0"
    unfolding grown_from_def by blast+
  show ?thesis
    unfolding grown_from_def
  proof (intro conjI allI impI)
    show "length (nodes m0) \<le> length (nodes m')" using g1 len by simp
  next
    fix i h assume a: "id_to_stage_m m0 i = Some h"
    then have "id_to_stage_m m i = Some h" by (rule g2)
    then show "id_to_stage_m m' i = Some h" using create(2,5) by auto
  next
    fix i h assume "id_to_stage_m m' i = Some h" "id_to_stage_m m0 i = None"
    then show "length (nodes m0) \<le> h"
      using create(5) g1 g3 by (auto split: if_splits)
  next
    fix h assume h: "length (nodes m0) \<le> h" "h < length (nodes m')"
    show "node_flags_m (nodes m' ! h) = 0"
    proof (cases "h = ?N")
      case True
      then show ?thesis using flN by simp
    next
      case False
      then have "h < ?N" using h len by simp
      then show ?thesis using fl g4 h(1) by simp
    qed
  qed
qed


lemma grown_from_refl: "grown_from m m"
  by (auto simp: grown_from_def)

lemma grown_from_known:
  assumes "grown_from m0 m" and "id_to_stage_m m i = Some h" and "h < length (nodes m0)"
  shows "id_to_stage_m m0 i = Some h"
proof (cases "id_to_stage_m m0 i")
  case None
  with assms show ?thesis unfolding grown_from_def by (metis not_less)
next
  case (Some h')
  with assms(1) have "id_to_stage_m m i = Some h'" unfolding grown_from_def by blast
  with assms(2) Some show ?thesis by simp
qed

lemma grown_from_fresh_unvisited:
  assumes "grown_from m0 m" and "well_formed m"
    and "id_to_stage_m m i = Some h" and "id_to_stage_m m0 i = None"
  shows "\<not> was_visited m h"
proof -
  from assms(1,3,4) have "length (nodes m0) \<le> h" unfolding grown_from_def by blast
  moreover from assms(2,3) have "h < length (nodes m)" unfolding well_formed_def by blast
  ultimately have "node_flags_m (nodes m ! h) = 0" using assms(1) unfolding grown_from_def by blast
  then show ?thesis by (simp add: was_visited_def)
qed

text \<open>After its own step a description is applied.\<close>

lemma describe_stage_applied_self:
  assumes "describe_stage s m = Inr m'" and "grown_from m0 m"
  shows "applied s m0 m'"
  using assms(1)
proof (cases rule: describe_stage_shape)
  case skip
  with assms(2) have "id_to_stage_m m0 (parent_id s) = None"
    unfolding grown_from_def by (metis not_None_eq option.distinct(1))
  then show ?thesis by (simp add: applied_def)
next
  case (update p n)
  have "content_is s m' n" using update(3,5) by (simp add: content_is_def)
  then show ?thesis using update(2,6) by (simp add: applied_def)
next
  case (create p)
  have "\<not> length (nodes m) < length (nodes m0)"
    using assms(2) unfolding grown_from_def by simp
  then show ?thesis using create(5) by (simp add: applied_def)
qed

text \<open>The step of a description with another id keeps an applied description applied.\<close>

lemma describe_stage_applied_other:
  assumes "describe_stage s' m = Inr m'" and "applied s m0 m" and "well_formed m"
    and "id_s s' \<noteq> id_s s"
  shows "applied s m0 m'"
proof (cases "id_to_stage_m m0 (parent_id s) = None")
  case True
  then show ?thesis by (simp add: applied_def)
next
  case False
  with assms(2) obtain n where n: "id_to_stage_m m (id_s s) = Some n"
    and c: "n < length (nodes m0) \<Longrightarrow> content_is s m n"
    unfolding applied_def by blast
  from assms(3) n have nl: "n < length (nodes m)" unfolding well_formed_def by blast
  from assms(1) have "id_to_stage_m m' (id_s s) = Some n
      \<and> (content_is s m n \<longrightarrow> content_is s m' n)"
  proof (cases rule: describe_stage_shape)
    case skip
    then show ?thesis using n by simp
  next
    case (update p k)
    from assms(3) update(2) n assms(4) have "k \<noteq> n" unfolding well_formed_def by blast
    then have "nodes m' ! n = nodes m ! n" using update(5) by simp
    then show ?thesis using n update(6) by (simp add: content_is_def)
  next
    case (create p)
    have "name_m (nodes m' ! n) = name_m (nodes m ! n)"
      "interface_flags_m (nodes m' ! n) = interface_flags_m (nodes m ! n)"
      "node_flags_m (nodes m' ! n) = node_flags_m (nodes m ! n)"
      using create(4) nl by (cases "n = p"; simp add: nth_append)+
    then have "content_is s m n \<longrightarrow> content_is s m' n"
      by (simp add: content_is_def new_content_def)
    then show ?thesis using n create(5) assms(4) by simp
  qed
  then show ?thesis using c by (auto simp: applied_def)
qed

text \<open>The step of an applied description emits nothing.\<close>

lemma describe_stage_silent:
  assumes "describe_stage s m = Inr m'" and "applied s m0 m"
    and "grown_from m0 m" and "well_formed m"
  shows "signals m' = signals m"
  using assms(1)
proof (cases rule: describe_stage_shape)
  case skip
  then show ?thesis by simp
next
  case (update p n)
  have "\<not> was_visited m n \<or> content_is s m n"
  proof (cases "n < length (nodes m0)")
    case False
    then have "length (nodes m0) \<le> n" by simp
    with assms(3) update(3) have "node_flags_m (nodes m ! n) = 0"
      unfolding grown_from_def by blast
    then show ?thesis by (simp add: was_visited_def)
  next
    case True
    from assms(4) update(3,4) have "p < n" unfolding well_formed_def by blast
    with True have "p < length (nodes m0)" by simp
    from grown_from_known [OF assms(3) update(1) this]
    have "id_to_stage_m m0 (parent_id s) \<noteq> None" by simp
    with assms(2) update(2) True have "content_is s m n" unfolding applied_def by auto
    then show ?thesis by simp
  qed
  then show ?thesis by (rule update(7))
next
  case (create p)
  have "id_to_stage_m m0 (parent_id s) = None"
    using assms(2) create(2) unfolding applied_def by auto
  from grown_from_fresh_unvisited [OF assms(3,4) create(1) this]
  show ?thesis by (rule create(6))
qed

lemma first_run:
  "describe_stages ss m = Inr m' \<Longrightarrow> grown_from m0 m \<Longrightarrow> well_formed m \<Longrightarrow>
   distinct (map id_s ss) \<Longrightarrow> (\<forall>s\<in>D. applied s m0 m) \<Longrightarrow>
   (\<forall>s\<in>D. \<forall>s'\<in>set ss. id_s s' \<noteq> id_s s) \<Longrightarrow>
   grown_from m0 m' \<and> well_formed m' \<and> (\<forall>s\<in>D \<union> set ss. applied s m0 m')"
proof (induction ss arbitrary: m D)
  case Nil
  then show ?case by simp
next
  case (Cons a ss)
  from Cons.prems(1) obtain m1 where one: "describe_stage a m = Inr m1"
    and rest: "describe_stages ss m1 = Inr m'"
    by (auto dest!: bindE_Inr)
  have g: "grown_from m0 m1" using one Cons.prems(2) by (rule describe_stage_grown)
  have w: "well_formed m1" using one Cons.prems(3) by (rule describe_stage_well_formed)
  have d: "distinct (map id_s ss)" using Cons.prems(4) by simp
  have ap: "\<forall>s\<in>insert a D. applied s m0 m1"
  proof
    fix s assume "s \<in> insert a D"
    then show "applied s m0 m1"
    proof
      assume "s = a"
      then show ?thesis using describe_stage_applied_self [OF one Cons.prems(2)] by simp
    next
      assume s: "s \<in> D"
      with Cons.prems(5,6) have "applied s m0 m" "id_s a \<noteq> id_s s" by auto
      then show ?thesis using describe_stage_applied_other [OF one _ Cons.prems(3)] by blast
    qed
  qed
  have ne: "\<forall>s\<in>insert a D. \<forall>s'\<in>set ss. id_s s' \<noteq> id_s s"
    using Cons.prems(4,6) by (auto simp: image_iff)
  from Cons.IH [OF rest g w d ap ne] show ?case by auto
qed

lemma second_run:
  "describe_stages ss m = Inr m' \<Longrightarrow> grown_from m0 m \<Longrightarrow> well_formed m \<Longrightarrow>
   (\<forall>s\<in>D. applied s m0 m) \<Longrightarrow> set ss \<subseteq> D \<Longrightarrow>
   (\<forall>s\<in>D. \<forall>s'\<in>D. s = s' \<or> id_s s' \<noteq> id_s s) \<Longrightarrow>
   signals m' = signals m"
proof (induction ss arbitrary: m)
  case Nil
  then show ?case by simp
next
  case (Cons a ss)
  from Cons.prems(1) obtain m1 where one: "describe_stage a m = Inr m1"
    and rest: "describe_stages ss m1 = Inr m'"
    by (auto dest!: bindE_Inr)
  have aD: "a \<in> D" using Cons.prems(5) by simp
  have g: "grown_from m0 m1" using one Cons.prems(2) by (rule describe_stage_grown)
  have w: "well_formed m1" using one Cons.prems(3) by (rule describe_stage_well_formed)
  have quiet: "signals m1 = signals m"
    using one _ Cons.prems(2,3) by (rule describe_stage_silent) (use aD Cons.prems(4) in blast)
  have ap: "\<forall>s\<in>D. applied s m0 m1"
  proof
    fix s assume s: "s \<in> D"
    show "applied s m0 m1"
    proof (cases "s = a")
      case True
      then show ?thesis using describe_stage_applied_self [OF one Cons.prems(2)] by simp
    next
      case False
      with s aD Cons.prems(6) have "id_s a \<noteq> id_s s" by blast
      moreover have "applied s m0 m" using s Cons.prems(4) by blast
      ultimately show ?thesis using describe_stage_applied_other [OF one _ Cons.prems(3)] by blast
    qed
  qed
  have sub: "set ss \<subseteq> D" using Cons.prems(5) by simp
  from Cons.IH [OF rest g w ap sub Cons.prems(6)] quiet show ?case by simp
qed

lemma processStageDescriptions_nonempty:
  "msg \<noteq> [] \<Longrightarrow> processStageDescriptions msg m = describe_stages msg m"
  by (cases "describe_stages msg m") (simp_all add: processStageDescriptions_def)

text \<open>
  C6 (amended). Let a description batch be non-empty with pairwise distinct stage ids, and
  let it be applied twice in a row to a well-formed model, both times without a failed
  assertion. Then the second application emits no signal: the signal log after it is the
  log after the first application.
\<close>

theorem C6_second_application_is_silent:
  assumes "msg \<noteq> []" and "distinct (map id_s msg)" and "well_formed m"
    and "processStageDescriptions msg m = Inr m1"
    and "processStageDescriptions msg m1 = Inr m2"
  shows "signals m2 = signals m1"
proof -
  from assms(1,4,5) have r1: "describe_stages msg m = Inr m1"
    and r2: "describe_stages msg m1 = Inr m2"
    by (simp_all add: processStageDescriptions_nonempty)
  from first_run [OF r1 grown_from_refl assms(3,2), of "{}"]
  have g: "grown_from m m1" and w: "well_formed m1" and ap: "\<forall>s\<in>set msg. applied s m m1"
    by simp_all
  have inj: "\<forall>s\<in>set msg. \<forall>s'\<in>set msg. s = s' \<or> id_s s' \<noteq> id_s s"
    using assms(2) by (auto simp: distinct_map inj_on_def)
  from second_run [OF r2 g w ap _ inj] show ?thesis by simp
qed


text \<open>The invariant holds in the initial model and is kept by the operations used below.\<close>

lemma well_formed_ctor: "well_formed RemoteTaskModel_ctor"
  by (auto simp: well_formed_def RemoteTaskModel_ctor_def Node_ctor_def root_m_def
      split: if_splits)

lemma describe_stages_well_formed:
  "describe_stages ss m = Inr m' \<Longrightarrow> well_formed m \<Longrightarrow> well_formed m'"
proof (induction ss arbitrary: m)
  case Nil
  then show ?case by simp
next
  case (Cons a ss)
  from Cons.prems(1) obtain m1 where one: "describe_stage a m = Inr m1"
    and rest: "describe_stages ss m1 = Inr m'"
    by (auto dest!: bindE_Inr)
  from Cons.IH [OF rest describe_stage_well_formed [OF one Cons.prems(2)]] show ?case .
qed

lemma well_formed_same_links:
  assumes "well_formed m" and "length (nodes m') = length (nodes m)"
    and "id_to_stage_m m' = id_to_stage_m m"
    and "\<And>h. h < length (nodes m) \<Longrightarrow> parent_m (nodes m' ! h) = parent_m (nodes m ! h)"
  shows "well_formed m'"
  using assms unfolding well_formed_def by simp

lemma index_rc_well_formed:
  assumes "index_rc r c p m = Inr x" and "well_formed m"
  shows "well_formed (snd x)"
proof (rule well_formed_same_links [OF assms(2)])
  show "length (nodes (snd x)) = length (nodes m)"
    using assms(1)
    by (auto simp: index_rc_def dest!: bindE_Inr deref_Inr split: if_splits option.splits)
  show "id_to_stage_m (snd x) = id_to_stage_m m"
    using assms(1)
    by (auto simp: index_rc_def dest!: bindE_Inr deref_Inr split: if_splits option.splits)
  show "parent_m (nodes (snd x) ! h) = parent_m (nodes m ! h)" if "h < length (nodes m)" for h
    using assms(1) that
    by (auto simp: index_rc_def nth_list_update dest!: bindE_Inr deref_Inr
        split: if_splits option.splits)
qed

lemma well_formed_one_stage_visited: "well_formed one_stage_visited"
proof -
  have "case processStageDescriptions [stage1 ''root-stage''] RemoteTaskModel_ctor of
          Inl e \<Rightarrow> False | Inr m \<Rightarrow> True"
    by code_simp
  then obtain m where m: "processStageDescriptions [stage1 ''root-stage''] RemoteTaskModel_ctor = Inr m"
    by (auto split: sum.splits)
  then have one: "one_stage = m" by (simp add: one_stage_def)
  from m have "describe_stages [stage1 ''root-stage''] RemoteTaskModel_ctor = Inr m"
    by (simp add: processStageDescriptions_nonempty)
  then have w: "well_formed one_stage"
    using one describe_stages_well_formed well_formed_ctor by blast
  have "case index_rc 0 0 QModelIndex_ctor one_stage of Inl e \<Rightarrow> False | Inr x \<Rightarrow> True"
    by code_simp
  then obtain x where x: "index_rc 0 0 QModelIndex_ctor one_stage = Inr x"
    by (auto split: sum.splits)
  then have "one_stage_visited = snd x" by (simp add: one_stage_visited_def)
  then show ?thesis using index_rc_well_formed [OF x w] by simp
qed

text \<open>
  C6 at a concrete input: the batch renames the visited stage and adds a child to it. The
  first application emits three signals, the second one none.
\<close>

theorem C6_second_application_witness:
  "(case processStageDescriptions two_stages one_stage_visited of
      Inl e \<Rightarrow> False
    | Inr m1 \<Rightarrow>
        signals m1 = [dataChanged (createIndex 0 0 0) (createIndex 0 2 0),
                      beginInsertRows (createIndex 0 0 0) 0 0, endInsertRows]
        \<and> (case processStageDescriptions two_stages m1 of
              Inl e \<Rightarrow> False
            | Inr m2 \<Rightarrow> signals m2 = signals m1))"
proof -
  have "case processStageDescriptions two_stages one_stage_visited of
      Inl e \<Rightarrow> False
    | Inr m1 \<Rightarrow>
        signals m1 = [dataChanged (createIndex 0 0 0) (createIndex 0 2 0),
                      beginInsertRows (createIndex 0 0 0) 0 0, endInsertRows]
        \<and> (case processStageDescriptions two_stages m1 of
              Inl e \<Rightarrow> False
            | Inr m2 \<Rightarrow> True)"
    by code_simp
  then obtain m1 m2 where
    m1: "processStageDescriptions two_stages one_stage_visited = Inr m1"
    and s1: "signals m1 = [dataChanged (createIndex 0 0 0) (createIndex 0 2 0),
                      beginInsertRows (createIndex 0 0 0) 0 0, endInsertRows]"
    and m2: "processStageDescriptions two_stages m1 = Inr m2"
    by (auto split: sum.splits)
  have ne: "two_stages \<noteq> []" by (simp add: two_stages_def)
  have di: "distinct (map id_s two_stages)" by (simp add: two_stages_def stage1_def)
  have "signals m2 = signals m1"
    using C6_second_application_is_silent [OF ne di well_formed_one_stage_visited m1 m2] .
  then show ?thesis using m1 m2 s1 by simp
qed

text \<open>
  C6, as stated, fails for the empty batch: each application emits the notification of
  the "destroyed" state, so the second application adds a signal.
\<close>

theorem C6_empty_batch_counterexample:
  "(case processStageDescriptions [] one_stage of
      Inl e \<Rightarrow> None
    | Inr m1 \<Rightarrow>
        (case processStageDescriptions [] m1 of
           Inl e \<Rightarrow> None
         | Inr m2 \<Rightarrow> Some (signals m1, signals m2)))
   = Some ([dataChanged (createIndex 0 0 0) (createIndex 0 2 0)],
           [dataChanged (createIndex 0 0 0) (createIndex 0 2 0),
            dataChanged (createIndex 0 0 0) (createIndex 0 2 0)])"
  by code_simp

text \<open>
  Distinct ids are needed: a batch that describes a visited stage twice, under two names,
  renames it twice in every application.
\<close>

lemma repeated_id_is_not_silent:
  "(case processStageDescriptions [stage1 ''a'', stage1 ''b''] one_stage_visited of
      Inl e \<Rightarrow> None
    | Inr m1 \<Rightarrow>
        (case processStageDescriptions [stage1 ''a'', stage1 ''b''] m1 of
           Inl e \<Rightarrow> None
         | Inr m2 \<Rightarrow> Some (length (signals m1), length (signals m2))))
   = Some (2, 4)"
  by code_simp

end
